theory Spec2Isabelle
  imports Main
begin

section \<open>Text primitives of the validator\<close>

text \<open>
  The script \<^verbatim>\<open>scripts/validate-docs.py\<close> works on Python \<^verbatim>\<open>str\<close> values. A
  \<^typ>\<open>string\<close> stands for such a value whose code points are below 256, one
  \<^typ>\<open>char\<close> per code point. On that range \<^verbatim>\<open>str.isspace\<close> and the regular
  expression class \<^verbatim>\<open>\s\<close> agree; they accept the code points listed in
  \<open>is_space\<close>. The class \<^verbatim>\<open>\w\<close> accepts \<^verbatim>\<open>_\<close> and what \<^verbatim>\<open>str.isalnum\<close>
  accepts.
\<close>

definition is_space :: "char \<Rightarrow> bool" where
  "is_space c =
     (let n = (of_char c :: nat)
      in (9 \<le> n \<and> n \<le> 13) \<or> (28 \<le> n \<and> n \<le> 32) \<or> n = 133 \<or> n = 160)"

definition is_word :: "char \<Rightarrow> bool" where
  "is_word c =
     (let n = (of_char c :: nat)
      in (48 \<le> n \<and> n \<le> 57) \<or> (65 \<le> n \<and> n \<le> 90) \<or> n = 95 \<or> (97 \<le> n \<and> n \<le> 122)
         \<or> n = 170 \<or> n = 178 \<or> n = 179 \<or> n = 181 \<or> n = 185 \<or> n = 186
         \<or> (188 \<le> n \<and> n \<le> 190) \<or> (192 \<le> n \<and> n \<le> 214)
         \<or> (216 \<le> n \<and> n \<le> 246) \<or> (248 \<le> n \<and> n \<le> 255))"

text \<open>Case folding of one character, as \<^verbatim>\<open>re.IGNORECASE\<close> compares the letters of
  the placeholder patterns (all of them ASCII letters).\<close>

definition lower :: "char \<Rightarrow> char" where
  "lower c =
     (let n = (of_char c :: nat)
      in if 65 \<le> n \<and> n \<le> 90 then char_of (n + 32) else c)"

definition nl :: char where
  "nl = CHR 0x0A"

text \<open>\<^verbatim>\<open>content.split('\n')\<close>: the result is never empty, and a trailing newline gives a
  last empty line. \<open>cons_line\<close> puts a character in front of the first line.\<close>

fun cons_line :: "char \<Rightarrow> string list \<Rightarrow> string list" where
  "cons_line c [] = [[c]]"
| "cons_line c (l # ls) = (c # l) # ls"

fun split_nl :: "string \<Rightarrow> string list" where
  "split_nl [] = [[]]"
| "split_nl (c # cs) = (if c = nl then [] # split_nl cs else cons_line c (split_nl cs))"

text \<open>\<^verbatim>\<open>'\n'.join(xs)\<close>\<close>

fun join_nl :: "string list \<Rightarrow> string" where
  "join_nl [] = []"
| "join_nl [x] = x"
| "join_nl (x # y # ys) = x @ nl # join_nl (y # ys)"

text \<open>\<^verbatim>\<open>s.strip()\<close>\<close>

definition strip :: "string \<Rightarrow> string" where
  "strip s = rev (dropWhile is_space (rev (dropWhile is_space s)))"

text \<open>\<^verbatim>\<open>s.startswith(p)\<close>\<close>

definition startswith :: "string \<Rightarrow> string \<Rightarrow> bool" where
  "startswith s p = (take (length p) s = p)"

text \<open>The suffixes of a string, the longest first: the positions a search tries.\<close>

fun tails :: "string \<Rightarrow> string list" where
  "tails [] = [[]]"
| "tails (c # cs) = (c # cs) # tails cs"

text \<open>\<^verbatim>\<open>sub in s\<close>\<close>

definition contains :: "string \<Rightarrow> string \<Rightarrow> bool" where
  "contains sub s = list_ex (\<lambda>t. startswith t sub) (tails s)"

section \<open>Regular expressions\<close>

text \<open>
  The patterns of the script use literals, the classes \<^verbatim>\<open>\s\<close>, \<^verbatim>\<open>\w\<close> and \<^verbatim>\<open>.\<close>,
  greedy \<^verbatim>\<open>*\<close> and \<^verbatim>\<open>+\<close> on a single class, greedy \<^verbatim>\<open>?\<close> on a group,
  alternation, concatenation and \<^verbatim>\<open>$\<close>. \<open>rem\<close> lists, for a pattern and a subject,
  the rests of the subject after each way the pattern matches a prefix of it, in the
  order in which the backtracking matcher of \<^verbatim>\<open>re\<close> tries them: the left alternative
  first, the longest repetition first, the optional group present first.
\<close>

datatype cclass = Ch char | Space | Word | AnyC

fun cmatch :: "bool \<Rightarrow> cclass \<Rightarrow> char \<Rightarrow> bool" where
  "cmatch ic (Ch x) c = (if ic then lower c = lower x else c = x)"
| "cmatch ic Space c = is_space c"
| "cmatch ic Word c = is_word c"
| "cmatch ic AnyC c = (c \<noteq> nl)"

datatype rexp =
    Sym cclass
  | Lit string
  | Star cclass
  | Plus cclass
  | Opt rexp
  | Alt rexp rexp
  | Seq rexp rexp
  | Eol

fun star_rems :: "(char \<Rightarrow> bool) \<Rightarrow> string \<Rightarrow> string list" where
  "star_rems p [] = [[]]"
| "star_rems p (c # cs) = (if p c then star_rems p cs @ [c # cs] else [c # cs])"

fun lit_rems :: "bool \<Rightarrow> string \<Rightarrow> string \<Rightarrow> string list" where
  "lit_rems ic [] s = [s]"
| "lit_rems ic (x # xs) [] = []"
| "lit_rems ic (x # xs) (c # cs) = (if cmatch ic (Ch x) c then lit_rems ic xs cs else [])"

fun rem :: "bool \<Rightarrow> rexp \<Rightarrow> string \<Rightarrow> string list" where
  "rem ic (Sym k) s = (case s of [] \<Rightarrow> [] | c # cs \<Rightarrow> if cmatch ic k c then [cs] else [])"
| "rem ic (Lit l) s = lit_rems ic l s"
| "rem ic (Star k) s = star_rems (cmatch ic k) s"
| "rem ic (Plus k) s =
     (case s of [] \<Rightarrow> [] | c # cs \<Rightarrow> if cmatch ic k c then star_rems (cmatch ic k) cs else [])"
| "rem ic (Opt r) s = rem ic r s @ [s]"
| "rem ic (Alt a b) s = rem ic a s @ rem ic b s"
| "rem ic (Seq a b) s = concat (map (rem ic b) (rem ic a s))"
| "rem ic Eol s = (if s = [] \<or> s = [nl] then [s] else [])"

fun seqs :: "rexp list \<Rightarrow> rexp" where
  "seqs [] = Lit []"
| "seqs [r] = r"
| "seqs (r # rs) = Seq r (seqs rs)"

text \<open>\<^verbatim>\<open>re.search(p, s)\<close> as a truth value, for a pattern \<^verbatim>\<open>^r\<close> compiled without
  \<^verbatim>\<open>re.MULTILINE\<close>: the match starts at the first character.\<close>

definition re_search_bol :: "rexp \<Rightarrow> string \<Rightarrow> bool" where
  "re_search_bol r s = (rem False r s \<noteq> [])"

text \<open>\<^verbatim>\<open>re.search(p, s, re.IGNORECASE)\<close> as a truth value: a match may start anywhere.\<close>

definition re_search_i :: "rexp \<Rightarrow> string \<Rightarrow> bool" where
  "re_search_i r s = list_ex (\<lambda>t. rem True r t \<noteq> []) (tails s)"

text \<open>\<^verbatim>\<open>re.match('^' pre '(' grp ')' post, s)\<close> and the text of its group: that of the first
  match in the order of the backtracking matcher.\<close>

definition re_match_group :: "rexp \<Rightarrow> rexp \<Rightarrow> rexp \<Rightarrow> string \<Rightarrow> string option" where
  "re_match_group pre grp post s =
     (case concat (map (\<lambda>r1. concat (map (\<lambda>r2. map (\<lambda>r3. take (length r1 - length r2) r1)
                                                 (rem False post r2))
                                      (rem False grp r1)))
                       (rem False pre s)) of
        [] \<Rightarrow> None
      | g # gs \<Rightarrow> Some g)"

section \<open>The data model\<close>

record DocIssue =
  issue_file :: string
  issue_line :: int
  issue_type :: string
  message :: string

record XmlDocBlock =
  start_line :: int
  end_line :: int
  has_summary :: bool
  has_example :: bool
  has_code_csharp :: bool
  code_content :: string
  member_line :: int
  member_type :: string
  member_name :: string

text \<open>\<^verbatim>\<open>XmlDocBlock(start_line=i, end_line=i)\<close> with the defaults of the dataclass.\<close>

definition new_block :: "int \<Rightarrow> XmlDocBlock" where
  "new_block i =
     \<lparr>start_line = i, end_line = i, has_summary = False, has_example = False,
      has_code_csharp = False, code_content = [], member_line = 0,
      member_type = [], member_name = []\<rparr>"

definition bsl :: string where
  "bsl = [CHR 0x5C]"

text \<open>\<^verbatim>\<open>PLACEHOLDER_PATTERNS\<close>: each pattern with its source text, which the warning
  prints.\<close>

definition PLACEHOLDER_PATTERNS :: "(string \<times> rexp) list" where
  "PLACEHOLDER_PATTERNS =
     [(''invoke'' @ bsl @ ''s+the'' @ bsl @ ''s+member'' @ bsl @ ''s+here'',
         seqs [Lit ''invoke'', Plus Space, Lit ''the'', Plus Space, Lit ''member'',
               Plus Space, Lit ''here'']),
      (''invoke'' @ bsl @ ''s+member'' @ bsl @ ''s+here'',
         seqs [Lit ''invoke'', Plus Space, Lit ''member'', Plus Space, Lit ''here'']),
      (''TODO'', Lit ''TODO''),
      (''placeholder'', Lit ''placeholder''),
      (bsl @ ''.'' @ bsl @ ''.'' @ bsl @ ''.'' @ bsl @ ''.'' @ bsl @ ''.'' @ bsl @ ''.'',
         Lit ''......'')]"

text \<open>The group \<^verbatim>\<open>(public|internal|protected|protected\s+internal)\<close> that every
  declaration pattern starts with, after \<^verbatim>\<open>^\s*\<close>.\<close>

definition vis :: rexp where
  "vis = Alt (Lit ''public'') (Alt (Lit ''internal'') (Alt (Lit ''protected'')
           (seqs [Lit ''protected'', Plus Space, Lit ''internal''])))"

text \<open>The eleven patterns tried on the line that ends a comment run, in the order of
  the source; each is written without its leading \<^verbatim>\<open>^\<close>.\<close>

definition MEMBER_PATTERNS :: "rexp list" where
  "MEMBER_PATTERNS =
     [seqs [Star Space, vis, Plus Space, Star AnyC, Plus Space, Plus Word, Star Space,
            Lit ''(''],
      seqs [Star Space, vis, Plus Space, Opt (seqs [Lit ''static'', Plus Space]),
            Plus Word, Star Space, Lit ''{''],
      seqs [Star Space, vis, Plus Space, Opt (seqs [Lit ''static'', Plus Space]),
            Opt (seqs [Lit ''readonly'', Plus Space]), Plus Word, Plus Space, Plus Word,
            Star Space, Lit ''{''],
      seqs [Star Space, vis, Plus Space, Opt (seqs [Lit ''static'', Plus Space]),
            Alt (Lit ''class'') (Alt (Lit ''struct'') (Alt (Lit ''interface'') (Lit ''enum''))),
            Plus Space, Plus Word],
      seqs [Star Space, vis, Plus Space, Lit ''implicit'', Plus Space, Lit ''operator''],
      seqs [Star Space, vis, Plus Space, Lit ''explicit'', Plus Space, Lit ''operator''],
      seqs [Star Space, vis, Plus Space, Lit ''static'', Plus Space, Lit ''implicit'',
            Plus Space, Lit ''operator''],
      seqs [Star Space, vis, Plus Space, Lit ''static'', Plus Space, Lit ''explicit'',
            Plus Space, Lit ''operator''],
      seqs [Star Space, vis, Plus Space, Lit ''static'', Plus Space, Plus Word, Plus Space,
            Lit ''operator''],
      seqs [Star Space, vis, Plus Space, Plus Word, Plus Space, Lit ''operator''],
      seqs [Star Space, vis, Plus Space, Opt (seqs [Lit ''static'', Plus Space]),
            Opt (seqs [Plus Word, Plus Space]), Lit ''operator'']]"

text \<open>The loop over the patterns with its \<^verbatim>\<open>break\<close>: the block is appended once, when
  some pattern is found in the line.\<close>

definition is_member_decl :: "string \<Rightarrow> bool" where
  "is_member_decl l = list_ex (\<lambda>p. re_search_bol p l) MEMBER_PATTERNS"

text \<open>\<^verbatim>\<open>re.match(r'^\s*///\s*(.*)$', line)\<close> and its group 1.\<close>

definition content_match :: "string \<Rightarrow> string option" where
  "content_match l =
     re_match_group (seqs [Star Space, Lit ''///'', Star Space]) (Star AnyC) Eol l"

definition is_doc_line :: "string \<Rightarrow> bool" where
  "is_doc_line l = startswith (strip l) ''///''"

section \<open>The block extractor\<close>

text \<open>The variables of the loop of \<^verbatim>\<open>extract_xml_doc_blocks\<close>; \<open>code_buf\<close> is the local
  list \<^verbatim>\<open>code_content\<close>.\<close>

record ext_state =
  blocks :: "XmlDocBlock list"
  current_block :: "XmlDocBlock option"
  in_code :: bool
  code_buf :: "string list"

definition init_state :: ext_state where
  "init_state = \<lparr>blocks = [], current_block = None, in_code = False, code_buf = []\<rparr>"

text \<open>The branch of a line that starts with \<^verbatim>\<open>///\<close> once stripped.\<close>

definition doc_step :: "int \<Rightarrow> string \<Rightarrow> ext_state \<Rightarrow> ext_state" where
  \<open>doc_step i l st =
     (let stripped = strip l;
          b0 = (case current_block st of None \<Rightarrow> new_block i | Some b \<Rightarrow> b\<lparr>end_line := i\<rparr>);
          b1 = (if contains ''<summary>'' stripped
                   \<or> (has_summary b0 \<and> \<not> contains ''</summary>'' stripped)
                then b0\<lparr>has_summary := True\<rparr> else b0);
          b2 = (if contains ''<example>'' stripped then b1\<lparr>has_example := True\<rparr> else b1);
          opened = contains ''<code lang="csharp">'' stripped;
          b3 = (if opened then b2\<lparr>has_code_csharp := True\<rparr> else b2);
          ic3 = (if opened then True else in_code st);
          buf3 = (if opened then [] else code_buf st);
          closed = contains ''</code>'' stripped;
          ic4 = (if closed then False else ic3);
          b4 = (if closed then b3\<lparr>code_content := join_nl buf3\<rparr> else b3);
          buf5 = (if ic4 then (case content_match l of None \<Rightarrow> buf3 | Some g \<Rightarrow> buf3 @ [g])
                  else buf3)
      in st\<lparr>current_block := Some b4, in_code := ic4, code_buf := buf5\<rparr>)\<close>

text \<open>The branch of any other line.\<close>

definition other_step :: "int \<Rightarrow> string \<Rightarrow> ext_state \<Rightarrow> ext_state" where
  "other_step i l st =
     \<lparr>blocks = (case current_block st of
                  None \<Rightarrow> blocks st
                | Some b \<Rightarrow> if is_member_decl l then blocks st @ [b\<lparr>member_line := i\<rparr>]
                            else blocks st),
      current_block = None, in_code = False, code_buf = []\<rparr>"

definition step :: "int \<Rightarrow> string \<Rightarrow> ext_state \<Rightarrow> ext_state" where
  "step i l st = (if is_doc_line l then doc_step i l st else other_step i l st)"

text \<open>\<^verbatim>\<open>for i, line in enumerate(lines, start=...)\<close>\<close>

fun run_lines :: "int \<Rightarrow> string list \<Rightarrow> ext_state \<Rightarrow> ext_state" where
  "run_lines i [] st = st"
| "run_lines i (l # ls) st = run_lines (i + 1) ls (step i l st)"

definition extract_lines :: "string list \<Rightarrow> XmlDocBlock list" where
  "extract_lines ls = blocks (run_lines 1 ls init_state)"

definition extract_xml_doc_blocks :: "string \<Rightarrow> XmlDocBlock list" where
  "extract_xml_doc_blocks content = extract_lines (split_nl content)"

section \<open>The policy checker\<close>

definition check_for_placeholders :: "string \<Rightarrow> string list" where
  "check_for_placeholders code =
     map fst (filter (\<lambda>p. re_search_i (snd p) code) PLACEHOLDER_PATTERNS)"

definition missing_summary :: "string \<Rightarrow> XmlDocBlock \<Rightarrow> DocIssue" where
  "missing_summary fp b =
     \<lparr>issue_file = fp, issue_line = start_line b, issue_type = ''error'',
      message = ''Non-private member missing <summary>''\<rparr>"

definition missing_example :: "string \<Rightarrow> XmlDocBlock \<Rightarrow> DocIssue" where
  \<open>missing_example fp b =
     \<lparr>issue_file = fp, issue_line = start_line b, issue_type = ''error'',
      message = ''Non-private member missing <example> with <code lang="csharp">''\<rparr>\<close>

definition placeholder_warning :: "string \<Rightarrow> XmlDocBlock \<Rightarrow> string \<Rightarrow> DocIssue" where
  "placeholder_warning fp b placeholder =
     \<lparr>issue_file = fp, issue_line = start_line b, issue_type = ''warning'',
      message = ''Code example contains placeholder pattern: '' @ placeholder\<rparr>"

text \<open>The loop over the blocks in \<^verbatim>\<open>validate_file\<close>, with the list \<^verbatim>\<open>issues\<close> it
  appends to; each \<^verbatim>\<open>continue\<close> goes on with the next block.\<close>

fun validate_blocks :: "string \<Rightarrow> XmlDocBlock list \<Rightarrow> DocIssue list \<Rightarrow> DocIssue list" where
  "validate_blocks fp [] issues = issues"
| "validate_blocks fp (b # bs) issues =
     (if \<not> has_summary b then validate_blocks fp bs (issues @ [missing_summary fp b])
      else if \<not> has_example b \<or> \<not> has_code_csharp b
      then validate_blocks fp bs (issues @ [missing_example fp b])
      else validate_blocks fp bs
             (issues @ map (placeholder_warning fp b) (check_for_placeholders (code_content b))))"

text \<open>\<^verbatim>\<open>validate_file\<close>: the result of \<^verbatim>\<open>file_path.read_text()\<close> is an argument,
  \<open>Inl e\<close> for an exception whose text is \<open>e\<close>, \<open>Inr content\<close> for the text read.\<close>

definition validate_file :: "string \<Rightarrow> string + string \<Rightarrow> DocIssue list" where
  "validate_file fp rd =
     (case rd of
        Inl e \<Rightarrow> [\<lparr>issue_file = fp, issue_line = 0, issue_type = ''error'',
                   message = ''Could not read file: '' @ e\<rparr>]
      | Inr content \<Rightarrow> validate_blocks fp (extract_xml_doc_blocks content) [])"

text \<open>The loop of \<^verbatim>\<open>main\<close> over the files: its four counters and the issues it prints,
  in the order printed. \<open>fs\<close> gives what reading each path returns.\<close>

record totals =
  files_with_issues :: int
  total_issues :: int
  total_errors :: int
  total_warnings :: int
  printed :: "DocIssue list"

fun count_issues :: "DocIssue list \<Rightarrow> totals \<Rightarrow> totals" where
  "count_issues [] t = t"
| "count_issues (x # xs) t =
     count_issues xs
       (if issue_type x = ''error''
        then t\<lparr>total_issues := total_issues t + 1, total_errors := total_errors t + 1,
               printed := printed t @ [x]\<rparr>
        else t\<lparr>total_issues := total_issues t + 1, total_warnings := total_warnings t + 1,
               printed := printed t @ [x]\<rparr>)"

fun main_loop :: "(string \<Rightarrow> string + string) \<Rightarrow> string list \<Rightarrow> totals \<Rightarrow> totals" where
  "main_loop fs [] t = t"
| "main_loop fs (fp # fps) t =
     (let issues = validate_file fp (fs fp)
      in main_loop fs fps
           (if issues \<noteq> []
            then count_issues issues (t\<lparr>files_with_issues := files_with_issues t + 1\<rparr>)
            else t))"

definition totals0 :: totals where
  "totals0 = \<lparr>files_with_issues = 0, total_issues = 0, total_errors = 0, total_warnings = 0,
              printed = []\<rparr>"

section \<open>Notions used to state the properties\<close>

text \<open>What holds of the state before line \<open>i\<close> is read: every block lies before its
  declaration, the blocks follow one another, and the open block comes after them.\<close>

definition ordered_upto :: "int \<Rightarrow> ext_state \<Rightarrow> bool" where
  "ordered_upto i st =
     ((\<forall>b\<in>set (blocks st). start_line b \<le> end_line b \<and> end_line b < member_line b
                             \<and> member_line b < i)
      \<and> sorted_wrt (\<lambda>a b. member_line a < start_line b) (blocks st)
      \<and> (case current_block st of
            None \<Rightarrow> True
          | Some c \<Rightarrow> start_line c \<le> end_line c \<and> end_line c < i
                      \<and> (\<forall>b\<in>set (blocks st). member_line b < start_line c)))"

text \<open>The conditions \<^verbatim>\<open>'<code lang="csharp">' in stripped\<close> and \<^verbatim>\<open>'</code>' in stripped\<close>
  of a line.\<close>

definition opens_code :: "string \<Rightarrow> bool" where
  \<open>opens_code l = contains ''<code lang="csharp">'' (strip l)\<close>

definition closes_code :: "string \<Rightarrow> bool" where
  "closes_code l = contains ''</code>'' (strip l)"

text \<open>The text of a comment line after its leading whitespace, its three slashes and all
  the whitespace that follows them: group 1 of \<open>content_match\<close> on such a line (lemma
  \<open>content_match_doc\<close>).\<close>

definition doc_text :: "string \<Rightarrow> string" where
  "doc_text l = dropWhile is_space (drop 3 (dropWhile is_space l))"

text \<open>The code text and the tagged-code flag of the open block, empty and false when no
  block is open.\<close>

definition cur_content :: "ext_state \<Rightarrow> string" where
  "cur_content st = (case current_block st of None \<Rightarrow> [] | Some b \<Rightarrow> code_content b)"

definition cur_tagged :: "ext_state \<Rightarrow> bool" where
  "cur_tagged st = (case current_block st of None \<Rightarrow> False | Some b \<Rightarrow> has_code_csharp b)"

text \<open>The texts one of which every line matching a declaration pattern holds: each of
  the eleven patterns has one of them as a literal that no alternative avoids.\<close>

definition member_tokens :: "string list" where
  "member_tokens = [''('', ''{'', ''class'', ''struct'', ''interface'', ''enum'', ''operator'']"

text \<open>\<open>requires_token p ts\<close>: every match of \<open>p\<close> goes through a literal of \<open>ts\<close>, by the
  shape of \<open>p\<close> alone.\<close>

fun requires_token :: "rexp \<Rightarrow> string list \<Rightarrow> bool" where
  "requires_token (Lit l) ts = (l \<in> set ts)"
| "requires_token (Seq a b) ts = (requires_token a ts \<or> requires_token b ts)"
| "requires_token (Alt a b) ts = (requires_token a ts \<and> requires_token b ts)"
| "requires_token (Sym k) ts = False"
| "requires_token (Star k) ts = False"
| "requires_token (Plus k) ts = False"
| "requires_token (Opt r) ts = False"
| "requires_token Eol ts = False"

text \<open>The conditions \<^verbatim>\<open>'<summary>' in stripped\<close> and \<^verbatim>\<open>'<example>' in stripped\<close> of a
  line.\<close>

definition opens_summary :: "string \<Rightarrow> bool" where
  "opens_summary l = contains ''<summary>'' (strip l)"

definition opens_example :: "string \<Rightarrow> bool" where
  "opens_example l = contains ''<example>'' (strip l)"

text \<open>The summary flag and the example flag of the open block, false when no block is
  open.\<close>

definition cur_summary :: "ext_state \<Rightarrow> bool" where
  "cur_summary st = (case current_block st of None \<Rightarrow> False | Some b \<Rightarrow> has_summary b)"

definition cur_example :: "ext_state \<Rightarrow> bool" where
  "cur_example st = (case current_block st of None \<Rightarrow> False | Some b \<Rightarrow> has_example b)"

text \<open>A code block as the scan takes it: one line that holds both markers, or a line with
  the open marker and no close marker, then lines with neither marker, then a line with
  the close marker and no open marker.\<close>

fun code_block :: "string list \<Rightarrow> bool" where
  "code_block [] = False"
| "code_block [l] = (opens_code l \<and> closes_code l)"
| "code_block (op # l # ls) =
     (opens_code op \<and> \<not> closes_code op
      \<and> list_all (\<lambda>m. \<not> opens_code m \<and> \<not> closes_code m) (butlast (l # ls))
      \<and> closes_code (last (l # ls)) \<and> \<not> opens_code (last (l # ls)))"

text \<open>No code block is opened and closed on these lines: a line with the open marker has
  no close marker, and no line after it has one.\<close>

fun no_closed_block :: "string list \<Rightarrow> bool" where
  "no_closed_block [] = True"
| "no_closed_block (l # ls) =
     ((if opens_code l then \<not> closes_code l \<and> list_all (\<lambda>m. \<not> closes_code m) ls else True)
      \<and> no_closed_block ls)"

section \<open>Sample inputs\<close>

text \<open>Texts, blocks and a file system on which the theorems below are instantiated.\<close>

definition sample_discarded :: string where
  "sample_discarded =
     ''/// <summary>a</summary>\<newline>private int x;\<newline>/// b\<newline>public void Foo()\<newline>/// trailing''"

definition sample_two_blocks :: string where
  "sample_two_blocks =
     ''/// <summary>a</summary>\<newline>public void Foo()\<newline>\<newline>/// b\<newline>/// c\<newline>internal class Bar''"

definition sample_no_summary :: XmlDocBlock where
  "sample_no_summary = (new_block 3)\<lparr>has_example := True, has_code_csharp := True,
     code_content := ''TODO''\<rparr>"

definition sample_no_example :: XmlDocBlock where
  "sample_no_example = (new_block 7)\<lparr>has_summary := True, has_code_csharp := True,
     code_content := ''placeholder''\<rparr>"

definition sample_placeholders :: XmlDocBlock where
  "sample_placeholders = (new_block 12)\<lparr>has_summary := True, has_example := True,
     has_code_csharp := True, code_content := ''// todo: Invoke  member here ...''\<rparr>"

definition sample_fs :: "string \<Rightarrow> string + string" where
  "sample_fs fp =
     (if fp = ''src/Bad.cs'' then Inl ''Permission denied''
      else Inr ''/// no summary\<newline>public void Foo()'')"

definition sample_open_summary :: ext_state where
  "sample_open_summary = doc_step 1 ''/// <summary>'' init_state"

definition sample_blank_gap :: string where
  "sample_blank_gap =
     ''/// <summary>a</summary>\<newline>\<newline>   \<newline>public void Foo()\<newline>/// b\<newline>public void Bar()''"

definition sample_field :: string where
  "sample_field = ''/// <summary>Count.</summary>\<newline>public int Count;''"

definition sample_code :: string where
  \<open>sample_code =
     ''/// <summary>s</summary>\<newline>/// <example>\<newline>/// <code lang="csharp">\<newline>///     var x = 1;\<newline>/// </code>\<newline>/// </example>\<newline>public void Foo()''\<close>


definition sample_unclosed :: string where
  \<open>sample_unclosed =
     ''/// <summary>s</summary>\<newline>/// <example>\<newline>/// <code lang="csharp">\<newline>/// TODO placeholder\<newline>public void Foo()''\<close>

definition sample_oneline :: string where
  \<open>sample_oneline =
     ''/// <code lang="csharp">x</code>\<newline>/// y\<newline>/// </code>\<newline>public void Foo()''\<close>


section \<open>The scan, line by line\<close>

lemma run_lines_append:
  "run_lines i (xs @ ys) st = run_lines (i + int (length xs)) ys (run_lines i xs st)"
  by (induction xs arbitrary: i st) (simp_all add: add.assoc)

lemma blocks_doc_step: "blocks (doc_step i l st) = blocks st"
  by (simp add: doc_step_def Let_def)

lemma current_doc_step: "\<exists>b. current_block (doc_step i l st) = Some b"
  by (simp add: doc_step_def Let_def)

lemma other_step_closed:
  "other_step i l st = init_state\<lparr>blocks := blocks (other_step i l st)\<rparr>"
  by (simp add: other_step_def init_state_def)

lemma step_blocks_split:
  "blocks (step i l st) = blocks st @ blocks (step i l (st\<lparr>blocks := []\<rparr>))"
  by (simp add: step_def doc_step_def other_step_def Let_def split: option.splits)

lemma step_rest_indep:
  "step i l st = (step i l (st\<lparr>blocks := []\<rparr>))\<lparr>blocks := blocks (step i l st)\<rparr>"
  by (simp add: step_def doc_step_def other_step_def Let_def split: option.splits)

lemma run_lines_blocks_split:
  "run_lines i ls st =
     (run_lines i ls (st\<lparr>blocks := []\<rparr>))
       \<lparr>blocks := blocks st @ blocks (run_lines i ls (st\<lparr>blocks := []\<rparr>))\<rparr>"
proof (induction ls arbitrary: i st)
  case Nil
  show ?case by simp
next
  case (Cons l ls)
  let ?s0 = "step i l (st\<lparr>blocks := []\<rparr>)"
  have a: "step i l st = ?s0\<lparr>blocks := blocks st @ blocks ?s0\<rparr>"
    using step_rest_indep [of i l st] step_blocks_split [of i l st] by simp
  have b: "run_lines (i + 1) ls (step i l st) =
      (run_lines (i + 1) ls (?s0\<lparr>blocks := []\<rparr>))
       \<lparr>blocks := (blocks st @ blocks ?s0) @ blocks (run_lines (i + 1) ls (?s0\<lparr>blocks := []\<rparr>))\<rparr>"
    using Cons.IH [of "i + 1" "step i l st"] by (simp add: a)
  have c: "run_lines (i + 1) ls ?s0 =
      (run_lines (i + 1) ls (?s0\<lparr>blocks := []\<rparr>))
       \<lparr>blocks := blocks ?s0 @ blocks (run_lines (i + 1) ls (?s0\<lparr>blocks := []\<rparr>))\<rparr>"
    using Cons.IH [of "i + 1" ?s0] .
  show ?case by (simp add: b) (simp add: c)
qed

lemma run_lines_docs_blocks:
  "\<forall>l\<in>set run. is_doc_line l \<Longrightarrow> blocks (run_lines i run st) = blocks st"
  by (induction run arbitrary: i st) (simp_all add: step_def blocks_doc_step)

lemma not_doc_step_closed:
  "\<not> is_doc_line l \<Longrightarrow> step i l st = init_state\<lparr>blocks := blocks (step i l st)\<rparr>"
  using other_step_closed [of i l st] by (simp add: step_def)

lemma run_lines_closed:
  assumes "ls = [] \<or> \<not> is_doc_line (last ls)"
  shows "run_lines i ls init_state = init_state\<lparr>blocks := blocks (run_lines i ls init_state)\<rparr>"
proof (cases "ls = []")
  case True
  then show ?thesis by (simp add: init_state_def)
next
  case False
  then obtain xs x where ls: "ls = xs @ [x]"
    by (metis append_butlast_last_id)
  with assms have "\<not> is_doc_line x" by simp
  then show ?thesis
    using not_doc_step_closed [of x "i + int (length xs)" "run_lines i xs init_state"]
    by (simp add: ls run_lines_append)
qed

lemma extract_lines_append:
  assumes "pre = [] \<or> \<not> is_doc_line (last pre)"
  shows "extract_lines (pre @ ls) =
           extract_lines pre @ blocks (run_lines (1 + int (length pre)) ls init_state)"
proof -
  let ?s = "run_lines 1 pre init_state"
  have a: "?s = init_state\<lparr>blocks := blocks ?s\<rparr>"
    using run_lines_closed [OF assms] .
  have "run_lines 1 (pre @ ls) init_state = run_lines (1 + int (length pre)) ls ?s"
    by (simp add: run_lines_append)
  also have "\<dots> = run_lines (1 + int (length pre)) ls (init_state\<lparr>blocks := blocks ?s\<rparr>)"
    using a by simp
  finally have "blocks (run_lines 1 (pre @ ls) init_state) =
      blocks ?s @ blocks (run_lines (1 + int (length pre)) ls init_state)"
    using run_lines_blocks_split [of "1 + int (length pre)" ls "init_state\<lparr>blocks := blocks ?s\<rparr>"]
    by (simp add: init_state_def)
  then show ?thesis by (simp add: extract_lines_def)
qed

text \<open>A run of comment lines that a line matching no declaration pattern ends leaves
  the blocks as they were, whatever the state before it.\<close>

lemma run_discarded:
  assumes "\<forall>l\<in>set run. is_doc_line l" and "\<not> is_doc_line x" and "\<not> is_member_decl x"
  shows "run_lines i (run @ x # rest) st =
           (run_lines (i + int (length run) + 1) rest init_state)
             \<lparr>blocks := blocks st @ blocks (run_lines (i + int (length run) + 1) rest init_state)\<rparr>"
proof -
  let ?s = "run_lines i run st"
  let ?j = "i + int (length run)"
  have b: "blocks ?s = blocks st"
    using run_lines_docs_blocks [OF assms(1)] .
  have "blocks (step ?j x ?s) = blocks st"
    using assms(2,3) b by (simp add: step_def other_step_def split: option.splits)
  then have c: "step ?j x ?s = init_state\<lparr>blocks := blocks st\<rparr>"
    using not_doc_step_closed [OF assms(2), of ?j ?s] by simp
  have "run_lines i (run @ x # rest) st = run_lines (?j + 1) rest (init_state\<lparr>blocks := blocks st\<rparr>)"
    by (simp add: run_lines_append c)
  then show ?thesis
    using run_lines_blocks_split [of "?j + 1" rest "init_state\<lparr>blocks := blocks st\<rparr>"]
    by (simp add: init_state_def)
qed

text \<open>A run of comment lines that starts with no block open, ended by a line that
  matches a declaration pattern, gives one block.\<close>

lemma run_finalized:
  assumes "run \<noteq> []" and "\<forall>l\<in>set run. is_doc_line l"
    and "\<not> is_doc_line x" and "is_member_decl x"
  shows "\<exists>b. current_block (run_lines i run init_state) = Some b \<and>
           blocks (run_lines i (run @ x # rest) init_state) =
             b\<lparr>member_line := i + int (length run)\<rparr>
               # blocks (run_lines (i + int (length run) + 1) rest init_state)"
proof -
  let ?s = "run_lines i run init_state"
  let ?j = "i + int (length run)"
  obtain ys y where run: "run = ys @ [y]"
    using assms(1) by (metis append_butlast_last_id)
  have "is_doc_line y" using assms(2) run by simp
  then have "\<exists>b. current_block ?s = Some b"
    using current_doc_step [of "i + int (length ys)" y "run_lines i ys init_state"]
    by (simp add: run run_lines_append step_def)
  then obtain b where cb: "current_block ?s = Some b" ..
  have bs: "blocks ?s = []"
    using run_lines_docs_blocks [OF assms(2), of i init_state] by (simp add: init_state_def)
  have "blocks (step ?j x ?s) = [b\<lparr>member_line := ?j\<rparr>]"
    using assms(3,4) cb bs by (simp add: step_def other_step_def)
  then have c: "step ?j x ?s = init_state\<lparr>blocks := [b\<lparr>member_line := ?j\<rparr>]\<rparr>"
    using not_doc_step_closed [OF assms(3), of ?j ?s] by simp
  have "run_lines i (run @ x # rest) init_state =
      run_lines (?j + 1) rest (init_state\<lparr>blocks := [b\<lparr>member_line := ?j\<rparr>]\<rparr>)"
    by (simp add: run_lines_append c)
  then have "blocks (run_lines i (run @ x # rest) init_state) =
      b\<lparr>member_line := ?j\<rparr> # blocks (run_lines (?j + 1) rest init_state)"
    using run_lines_blocks_split [of "?j + 1" rest "init_state\<lparr>blocks := [b\<lparr>member_line := ?j\<rparr>]\<rparr>"]
    by (simp add: init_state_def)
  with cb show ?thesis by blast
qed

section \<open>Line numbers of the blocks\<close>

lemma doc_step_start:
  "current_block (doc_step i l st) = Some b \<Longrightarrow>
     end_line b = i \<and> start_line b = (case current_block st of None \<Rightarrow> i | Some c \<Rightarrow> start_line c)"
  by (auto simp: doc_step_def Let_def new_block_def split: option.splits if_splits)

lemma ordered_doc_step:
  assumes "ordered_upto i st"
  shows "ordered_upto (i + 1) (doc_step i l st)"
proof -
  obtain b where b: "current_block (doc_step i l st) = Some b"
    using current_doc_step by blast
  note s = doc_step_start [OF b]
  have "start_line b \<le> end_line b \<and> end_line b < i + 1
      \<and> (\<forall>a\<in>set (blocks st). member_line a < start_line b)"
    using assms s by (cases "current_block st") (auto simp: ordered_upto_def)
  moreover have "\<forall>a\<in>set (blocks st). start_line a \<le> end_line a \<and> end_line a < member_line a
                             \<and> member_line a < i + 1"
    using assms by (auto simp: ordered_upto_def)
  ultimately show ?thesis
    using assms b by (simp add: ordered_upto_def blocks_doc_step)
qed

lemma ordered_other_step:
  assumes "ordered_upto i st"
  shows "ordered_upto (i + 1) (other_step i l st)"
proof (cases "current_block st")
  case None
  then show ?thesis using assms by (auto simp: ordered_upto_def other_step_def)
next
  case (Some c)
  then show ?thesis
    using assms
    by (auto simp: ordered_upto_def other_step_def sorted_wrt_append)
qed

lemma ordered_step: "ordered_upto i st \<Longrightarrow> ordered_upto (i + 1) (step i l st)"
  by (simp add: step_def ordered_doc_step ordered_other_step)

lemma ordered_run_lines:
  "ordered_upto i st \<Longrightarrow> ordered_upto (i + int (length ls)) (run_lines i ls st)"
proof (induction ls arbitrary: i st)
  case Nil
  then show ?case by simp
next
  case (Cons l ls)
  have "ordered_upto (i + 1 + int (length ls)) (run_lines (i + 1) ls (step i l st))"
    using Cons.IH [OF ordered_step [OF Cons.prems]] .
  moreover have "i + 1 + int (length ls) = i + int (length (l # ls))"
    by simp
  ultimately show ?case by (simp only: run_lines.simps)
qed

lemma ordered_init: "ordered_upto i init_state"
  by (simp add: ordered_upto_def init_state_def)

text \<open>No block found from line \<open>i\<close> on starts before line \<open>i\<close>.\<close>

lemma start_bound_step:
  assumes "j \<le> i"
    and "\<forall>b\<in>set (blocks st). j \<le> start_line b"
    and "\<forall>c. current_block st = Some c \<longrightarrow> j \<le> start_line c"
  shows "(\<forall>b\<in>set (blocks (step i l st)). j \<le> start_line b)
       \<and> (\<forall>c. current_block (step i l st) = Some c \<longrightarrow> j \<le> start_line c)"
proof (cases "is_doc_line l")
  case True
  have "j \<le> start_line c" if c: "current_block (doc_step i l st) = Some c" for c
  proof (cases "current_block st")
    case None
    then show ?thesis using doc_step_start [OF c] assms(1) by simp
  next
    case (Some d)
    then show ?thesis using doc_step_start [OF c] assms(3) by simp
  qed
  then show ?thesis using True assms(2) by (simp add: step_def blocks_doc_step)
next
  case False
  have cur: "current_block (other_step i l st) = None"
    by (simp add: other_step_def)
  have "j \<le> start_line b" if b: "b \<in> set (blocks (other_step i l st))" for b
  proof (cases "current_block st")
    case None
    then show ?thesis using b assms(2) by (simp add: other_step_def)
  next
    case (Some d)
    then have "j \<le> start_line d" using assms(3) by simp
    then show ?thesis using b assms(2) Some
      by (cases "is_member_decl l") (auto simp: other_step_def)
  qed
  then show ?thesis using False cur by (simp add: step_def)
qed

lemma start_bound_run_lines:
  assumes "j \<le> i"
    and "\<forall>b\<in>set (blocks st). j \<le> start_line b"
    and "\<forall>c. current_block st = Some c \<longrightarrow> j \<le> start_line c"
  shows "\<forall>b\<in>set (blocks (run_lines i ls st)). j \<le> start_line b"
  using assms
proof (induction ls arbitrary: i st)
  case Nil
  then show ?case by simp
next
  case (Cons l ls)
  have le: "j \<le> i + 1" using Cons.prems(1) by simp
  note s = start_bound_step [OF Cons.prems, of l]
  have "\<forall>b\<in>set (blocks (run_lines (i + 1) ls (step i l st))). j \<le> start_line b"
    by (rule Cons.IH [OF le conjunct1 [OF s] conjunct2 [OF s]])
  then show ?case by (simp only: run_lines.simps)
qed

lemma start_bound_init:
  assumes "b \<in> set (blocks (run_lines i ls init_state))"
  shows "i \<le> start_line b"
proof -
  have "\<forall>b\<in>set (blocks (run_lines i ls init_state)). i \<le> start_line b"
    by (rule start_bound_run_lines) (simp_all add: init_state_def)
  with assms show ?thesis by blast
qed

lemma extract_lines_ordered:
  "ordered_upto (1 + int (length ls)) (run_lines 1 ls init_state)"
  using ordered_run_lines [OF ordered_init, of 1 ls] .

lemma step_count:
  "length (blocks (step i l st)) \<le> length (blocks st) + (if is_member_decl l then 1 else 0)"
  by (simp add: step_def blocks_doc_step other_step_def split: option.splits)

lemma run_lines_count:
  "length (blocks (run_lines i ls st)) \<le> length (blocks st) + length (filter is_member_decl ls)"
proof (induction ls arbitrary: i st)
  case Nil
  show ?case by simp
next
  case (Cons l ls)
  have "length (blocks (run_lines (i + 1) ls (step i l st)))
      \<le> length (blocks (step i l st)) + length (filter is_member_decl ls)"
    using Cons.IH .
  also have "\<dots> \<le> length (blocks st) + (if is_member_decl l then 1 else 0)
                   + length (filter is_member_decl ls)"
    using step_count [of i l st] by simp
  finally show ?case by (cases "is_member_decl l") simp_all
qed

section \<open>Claims about the order and the number of blocks\<close>

text \<open>
  C9. The extractor returns the blocks in file order: for every input text, every block
  has start line \<open>\<le>\<close> end line \<open><\<close> declaration line, and the start lines increase strictly
  along the returned list.
\<close>

theorem blocks_in_file_order:
  "(\<forall>b\<in>set (extract_xml_doc_blocks content).
       start_line b \<le> end_line b \<and> end_line b < member_line b)
   \<and> sorted_wrt (\<lambda>a b. start_line a < start_line b) (extract_xml_doc_blocks content)"
proof -
  let ?ls = "split_nl content"
  let ?bs = "blocks (run_lines 1 ?ls init_state)"
  have o: "ordered_upto (1 + int (length ?ls)) (run_lines 1 ?ls init_state)"
    by (rule extract_lines_ordered)
  have r: "\<forall>b\<in>set ?bs. start_line b \<le> end_line b \<and> end_line b < member_line b"
    using o by (simp add: ordered_upto_def)
  have s: "sorted_wrt (\<lambda>a b. member_line a < start_line b) ?bs"
    using o by (simp add: ordered_upto_def)
  have "sorted_wrt (\<lambda>a b. start_line a < start_line b) ?bs"
  proof (rule sorted_wrt_mono_rel [OF _ s])
    fix a b
    assume "a \<in> set ?bs" and "b \<in> set ?bs" and "member_line a < start_line b"
    then show "start_line a < start_line b" using r by fastforce
  qed
  with r show ?thesis
    by (simp add: extract_xml_doc_blocks_def extract_lines_def)
qed

theorem blocks_in_file_order_witness:
  "length (extract_xml_doc_blocks sample_two_blocks) = 2
   \<and> list_all (\<lambda>b. start_line b \<le> end_line b \<and> end_line b < member_line b)
        (extract_xml_doc_blocks sample_two_blocks)
   \<and> sorted_wrt (\<lambda>a b. start_line a < start_line b) (extract_xml_doc_blocks sample_two_blocks)"
proof -
  have "length (extract_xml_doc_blocks sample_two_blocks) = 2"
    by code_simp
  then show ?thesis
    using blocks_in_file_order [of sample_two_blocks] by (simp add: list_all_iff)
qed

text \<open>
  C6. For every input text the extractor returns no more blocks than the text has lines
  matching a declaration pattern. In particular a run of comment lines that is still open
  at the end of the text adds no block, and neither does a run ended by a line that
  matches no declaration pattern: the result is made of the blocks found before the run
  and of those found after the line that ended it.
\<close>

theorem blocks_bounded_by_declarations:
  "length (extract_xml_doc_blocks content) \<le> length (filter is_member_decl (split_nl content))
   \<and> (\<forall>pre run. split_nl content = pre @ run \<and> (\<forall>l\<in>set run. is_doc_line l)
         \<longrightarrow> extract_xml_doc_blocks content = extract_lines pre)
   \<and> (\<forall>pre run x post.
         split_nl content = pre @ run @ x # post \<and> (\<forall>l\<in>set run. is_doc_line l)
         \<and> \<not> is_doc_line x \<and> \<not> is_member_decl x
         \<longrightarrow> extract_xml_doc_blocks content =
               extract_lines pre
                 @ blocks (run_lines (1 + int (length pre) + int (length run) + 1) post init_state))"
proof (intro conjI allI impI)
  show "length (extract_xml_doc_blocks content) \<le> length (filter is_member_decl (split_nl content))"
    using run_lines_count [of 1 "split_nl content" init_state]
    by (simp add: extract_xml_doc_blocks_def extract_lines_def init_state_def)
next
  fix pre run
  assume a: "split_nl content = pre @ run \<and> (\<forall>l\<in>set run. is_doc_line l)"
  then have "blocks (run_lines (1 + int (length pre)) run (run_lines 1 pre init_state))
      = blocks (run_lines 1 pre init_state)"
    using run_lines_docs_blocks by blast
  then show "extract_xml_doc_blocks content = extract_lines pre"
    using a by (simp add: extract_xml_doc_blocks_def extract_lines_def run_lines_append)
next
  fix pre run x post
  assume a: "split_nl content = pre @ run @ x # post \<and> (\<forall>l\<in>set run. is_doc_line l)
         \<and> \<not> is_doc_line x \<and> \<not> is_member_decl x"
  have "blocks (run_lines (1 + int (length pre)) (run @ x # post) (run_lines 1 pre init_state))
      = blocks (run_lines 1 pre init_state)
          @ blocks (run_lines (1 + int (length pre) + int (length run) + 1) post init_state)"
    using a run_discarded [of run x "1 + int (length pre)" post "run_lines 1 pre init_state"]
    by simp
  then show "extract_xml_doc_blocks content =
      extract_lines pre @ blocks (run_lines (1 + int (length pre) + int (length run) + 1) post init_state)"
    using a by (simp add: extract_xml_doc_blocks_def extract_lines_def run_lines_append)
qed

theorem blocks_bounded_by_declarations_witness:
  "(split_nl sample_discarded
      = [''/// <summary>a</summary>'', ''private int x;'', ''/// b'', ''public void Foo()'']
          @ [''/// trailing'']
    \<and> list_all is_doc_line [''/// trailing''])
   \<and> extract_xml_doc_blocks sample_discarded
      = extract_lines [''/// <summary>a</summary>'', ''private int x;'', ''/// b'', ''public void Foo()'']
   \<and> (split_nl sample_discarded
      = [] @ [''/// <summary>a</summary>''] @ ''private int x;''
          # [''/// b'', ''public void Foo()'', ''/// trailing'']
    \<and> list_all is_doc_line [''/// <summary>a</summary>'']
    \<and> \<not> is_doc_line ''private int x;'' \<and> \<not> is_member_decl ''private int x;'')
   \<and> extract_xml_doc_blocks sample_discarded
      = extract_lines []
          @ blocks (run_lines (1 + int (length ([] :: string list))
                                 + int (length [''/// <summary>a</summary>'']) + 1)
                      [''/// b'', ''public void Foo()'', ''/// trailing''] init_state)
   \<and> length (extract_xml_doc_blocks sample_discarded)
      \<le> length (filter is_member_decl (split_nl sample_discarded))"
proof -
  note t = blocks_bounded_by_declarations [of sample_discarded]
  have h1: "split_nl sample_discarded
      = [''/// <summary>a</summary>'', ''private int x;'', ''/// b'', ''public void Foo()'']
          @ [''/// trailing'']
    \<and> (\<forall>l\<in>set [''/// trailing'']. is_doc_line l)"
    by code_simp
  have h2: "split_nl sample_discarded
      = [] @ [''/// <summary>a</summary>''] @ ''private int x;''
          # [''/// b'', ''public void Foo()'', ''/// trailing'']
    \<and> (\<forall>l\<in>set [''/// <summary>a</summary>'']. is_doc_line l)
    \<and> \<not> is_doc_line ''private int x;'' \<and> \<not> is_member_decl ''private int x;''"
    by code_simp
  from t have c1: "length (extract_xml_doc_blocks sample_discarded)
      \<le> length (filter is_member_decl (split_nl sample_discarded))"
    by (rule conjunct1)
  from t have c2: "\<forall>pre run. split_nl sample_discarded = pre @ run \<and> (\<forall>l\<in>set run. is_doc_line l)
         \<longrightarrow> extract_xml_doc_blocks sample_discarded = extract_lines pre"
    by (rule conjunct1 [OF conjunct2])
  from t have c3: "\<forall>pre run x post.
         split_nl sample_discarded = pre @ run @ x # post \<and> (\<forall>l\<in>set run. is_doc_line l)
         \<and> \<not> is_doc_line x \<and> \<not> is_member_decl x
         \<longrightarrow> extract_xml_doc_blocks sample_discarded =
               extract_lines pre
                 @ blocks (run_lines (1 + int (length pre) + int (length run) + 1) post init_state)"
    by (rule conjunct2 [OF conjunct2])
  note r2 = mp [OF spec [OF spec [OF c2]] h1]
  note r3 = mp [OF spec [OF spec [OF spec [OF spec [OF c3]]]] h2]
  have l1: "list_all is_doc_line [''/// trailing'']"
    using h1 by simp
  have l2: "list_all is_doc_line [''/// <summary>a</summary>'']"
    using h2 by simp
  show ?thesis
    by (intro conjI l1 l2 h1 [THEN conjunct1] h1 [THEN conjunct2] r2 r3 c1
          h2 [THEN conjunct1] h2 [THEN conjunct2, THEN conjunct1]
          h2 [THEN conjunct2, THEN conjunct2, THEN conjunct1]
          h2 [THEN conjunct2, THEN conjunct2, THEN conjunct2])
qed

section \<open>The policy checker, block by block\<close>

lemma validate_blocks_concat:
  "validate_blocks fp bs acc = acc @ concat (map (\<lambda>b. validate_blocks fp [b] []) bs)"
  by (induction bs arbitrary: acc) simp_all

lemma printed_count_issues: "printed (count_issues xs t) = printed t @ xs"
  by (induction xs arbitrary: t) simp_all

lemma printed_main_loop:
  "printed (main_loop fs fps t) = printed t @ concat (map (\<lambda>fp. validate_file fp (fs fp)) fps)"
proof (induction fps arbitrary: t)
  case Nil
  show ?case by simp
next
  case (Cons fp fps)
  show ?case
    by (cases "validate_file fp (fs fp) = []")
      (simp_all add: Cons.IH Let_def printed_count_issues)
qed

lemma doc_step_summary_kept:
  assumes "current_block st = Some b" and "has_summary b"
  shows "\<exists>b'. current_block (doc_step i l st) = Some b' \<and> has_summary b'"
  using assms by (simp add: doc_step_def Let_def)

section \<open>Claims about the policy checker\<close>

text \<open>
  C1. The policy checker applies its three rules to every block, the first failure
  winning. The issues of a file are those of its blocks, block after block. A block
  without summary gives exactly one error at its start line and nothing else; a block
  with a summary but without example or without tagged code gives exactly one error at
  its start line and no warning; any other block gives no error and one warning for each
  placeholder pattern found in its code text, naming that pattern, at its start line.
\<close>

theorem policy_first_failure_wins:
  \<open>validate_file fp (Inr content)
     = concat (map (\<lambda>b. validate_blocks fp [b] []) (extract_xml_doc_blocks content))
   \<and> (\<forall>b. \<not> has_summary b \<longrightarrow>
          validate_blocks fp [b] []
            = [\<lparr>issue_file = fp, issue_line = start_line b, issue_type = ''error'',
                message = ''Non-private member missing <summary>''\<rparr>])
   \<and> (\<forall>b. has_summary b \<and> (\<not> has_example b \<or> \<not> has_code_csharp b) \<longrightarrow>
          validate_blocks fp [b] []
            = [\<lparr>issue_file = fp, issue_line = start_line b, issue_type = ''error'',
                message = ''Non-private member missing <example> with <code lang="csharp">''\<rparr>])
   \<and> (\<forall>b. has_summary b \<and> has_example b \<and> has_code_csharp b \<longrightarrow>
          validate_blocks fp [b] []
            = map (\<lambda>p. \<lparr>issue_file = fp, issue_line = start_line b, issue_type = ''warning'',
                         message = ''Code example contains placeholder pattern: '' @ fst p\<rparr>)
                (filter (\<lambda>p. re_search_i (snd p) (code_content b)) PLACEHOLDER_PATTERNS))
   \<and> distinct (map fst PLACEHOLDER_PATTERNS)\<close>
proof (intro conjI allI impI)
  show "validate_file fp (Inr content)
     = concat (map (\<lambda>b. validate_blocks fp [b] []) (extract_xml_doc_blocks content))"
    using validate_blocks_concat [of fp "extract_xml_doc_blocks content" "[]"]
    by (simp add: validate_file_def)
next
  fix b :: XmlDocBlock assume "\<not> has_summary b"
  then show "validate_blocks fp [b] []
            = [\<lparr>issue_file = fp, issue_line = start_line b, issue_type = ''error'',
                message = ''Non-private member missing <summary>''\<rparr>]"
    by (simp add: missing_summary_def)
next
  fix b :: XmlDocBlock assume "has_summary b \<and> (\<not> has_example b \<or> \<not> has_code_csharp b)"
  then show \<open>validate_blocks fp [b] []
            = [\<lparr>issue_file = fp, issue_line = start_line b, issue_type = ''error'',
                message = ''Non-private member missing <example> with <code lang="csharp">''\<rparr>]\<close>
    by (auto simp: missing_example_def)
next
  fix b :: XmlDocBlock assume "has_summary b \<and> has_example b \<and> has_code_csharp b"
  then show "validate_blocks fp [b] []
            = map (\<lambda>p. \<lparr>issue_file = fp, issue_line = start_line b, issue_type = ''warning'',
                         message = ''Code example contains placeholder pattern: '' @ fst p\<rparr>)
                (filter (\<lambda>p. re_search_i (snd p) (code_content b)) PLACEHOLDER_PATTERNS)"
    by (simp add: check_for_placeholders_def placeholder_warning_def comp_def)
next
  show "distinct (map fst PLACEHOLDER_PATTERNS)"
    by (simp add: PLACEHOLDER_PATTERNS_def bsl_def)
qed

text \<open>
  C5. Within one run of comment lines the has-summary flag is sticky: once the open block
  has it, the open block has it after any further comment lines, whatever they contain.
\<close>

theorem summary_flag_sticky:
  assumes "\<forall>l\<in>set run. is_doc_line l"
    and "current_block st = Some b" and "has_summary b"
  shows "\<exists>b'. current_block (run_lines i run st) = Some b' \<and> has_summary b'"
  using assms
proof (induction run arbitrary: i st b)
  case Nil
  then show ?case by simp
next
  case (Cons l run)
  have d: "step i l st = doc_step i l st"
    using Cons.prems(1) by (simp add: step_def)
  obtain b' where b': "current_block (doc_step i l st) = Some b'" "has_summary b'"
    using doc_step_summary_kept [OF Cons.prems(2,3)] by blast
  have "\<forall>l\<in>set run. is_doc_line l" using Cons.prems(1) by simp
  from Cons.IH [OF this, of "doc_step i l st" b' "i + 1"] b'
  show ?case by (simp add: d)
qed

text \<open>
  C8. When reading a file fails, \<open>validate_file\<close> returns exactly one issue for it: an
  error at line 0 whose message holds the text of the failure, and no issue of any block.
  The loop over the files goes on: it prints the issues of the files before, this one
  issue, and the issues of the files after.
\<close>

theorem read_failure_one_issue:
  "validate_file fp (Inl e)
     = [\<lparr>issue_file = fp, issue_line = 0, issue_type = ''error'',
         message = ''Could not read file: '' @ e\<rparr>]
   \<and> (fs fp = Inl e \<longrightarrow>
         printed (main_loop fs (pre @ fp # post) totals0)
           = printed (main_loop fs pre totals0)
               @ [\<lparr>issue_file = fp, issue_line = 0, issue_type = ''error'',
                    message = ''Could not read file: '' @ e\<rparr>]
               @ concat (map (\<lambda>p. validate_file p (fs p)) post))"
  by (simp add: printed_main_loop) (simp add: validate_file_def)

theorem policy_first_failure_wins_witness:
  \<open>validate_file ''src/A.cs'' (Inr sample_two_blocks)
     = concat (map (\<lambda>b. validate_blocks ''src/A.cs'' [b] []) (extract_xml_doc_blocks sample_two_blocks))
   \<and> \<not> has_summary sample_no_summary
   \<and> validate_blocks ''src/A.cs'' [sample_no_summary] []
       = [\<lparr>issue_file = ''src/A.cs'', issue_line = start_line sample_no_summary,
           issue_type = ''error'', message = ''Non-private member missing <summary>''\<rparr>]
   \<and> has_summary sample_no_example \<and> \<not> has_example sample_no_example
   \<and> validate_blocks ''src/A.cs'' [sample_no_example] []
       = [\<lparr>issue_file = ''src/A.cs'', issue_line = start_line sample_no_example,
           issue_type = ''error'',
           message = ''Non-private member missing <example> with <code lang="csharp">''\<rparr>]
   \<and> has_summary sample_placeholders \<and> has_example sample_placeholders
   \<and> has_code_csharp sample_placeholders
   \<and> validate_blocks ''src/A.cs'' [sample_placeholders] []
       = map (\<lambda>p. \<lparr>issue_file = ''src/A.cs'', issue_line = start_line sample_placeholders,
                    issue_type = ''warning'',
                    message = ''Code example contains placeholder pattern: '' @ fst p\<rparr>)
           (filter (\<lambda>p. re_search_i (snd p) (code_content sample_placeholders))
              PLACEHOLDER_PATTERNS)
   \<and> map fst (filter (\<lambda>p. re_search_i (snd p) (code_content sample_placeholders))
              PLACEHOLDER_PATTERNS)
       = [''invoke'' @ bsl @ ''s+member'' @ bsl @ ''s+here'', ''TODO'']\<close>
proof -
  note t = policy_first_failure_wins [of "''src/A.cs''" sample_two_blocks]
  have h1: "\<not> has_summary sample_no_summary"
    by (simp add: sample_no_summary_def new_block_def)
  have h2: "has_summary sample_no_example \<and> \<not> has_example sample_no_example"
    by (simp add: sample_no_example_def new_block_def)
  have h3: "has_summary sample_placeholders \<and> has_example sample_placeholders
      \<and> has_code_csharp sample_placeholders"
    by (simp add: sample_placeholders_def new_block_def)
  have h4: "map fst (filter (\<lambda>p. re_search_i (snd p) (code_content sample_placeholders))
              PLACEHOLDER_PATTERNS)
       = [''invoke'' @ bsl @ ''s+member'' @ bsl @ ''s+here'', ''TODO'']"
    by code_simp
  show ?thesis
    using t h1 h2 h3 h4 by blast
qed

theorem summary_flag_sticky_witness:
  "list_all is_doc_line [''/// </summary>'', ''/// <remarks>text</remarks>'']
   \<and> current_block sample_open_summary = Some ((new_block 1)\<lparr>has_summary := True\<rparr>)
   \<and> has_summary ((new_block 1)\<lparr>has_summary := True\<rparr>)
   \<and> (\<exists>b'. current_block (run_lines 2 [''/// </summary>'', ''/// <remarks>text</remarks>'']
                                sample_open_summary) = Some b'
             \<and> has_summary b')"
proof -
  have h1: "\<forall>l\<in>set [''/// </summary>'', ''/// <remarks>text</remarks>'']. is_doc_line l"
    by code_simp
  have h2: "current_block sample_open_summary = Some ((new_block 1)\<lparr>has_summary := True\<rparr>)"
    by code_simp
  have h3: "has_summary ((new_block 1)\<lparr>has_summary := True\<rparr>)"
    by simp
  show ?thesis
    using summary_flag_sticky [OF h1 h2 h3, of 2] h1 h2 h3 by (simp add: list_all_iff)
qed

theorem read_failure_one_issue_witness:
  "sample_fs ''src/Bad.cs'' = Inl ''Permission denied''
   \<and> validate_file ''src/Bad.cs'' (Inl ''Permission denied'')
     = [\<lparr>issue_file = ''src/Bad.cs'', issue_line = 0, issue_type = ''error'',
         message = ''Could not read file: '' @ ''Permission denied''\<rparr>]
   \<and> printed (main_loop sample_fs ([''src/A.cs''] @ ''src/Bad.cs'' # [''src/C.cs'']) totals0)
       = printed (main_loop sample_fs [''src/A.cs''] totals0)
           @ [\<lparr>issue_file = ''src/Bad.cs'', issue_line = 0, issue_type = ''error'',
                message = ''Could not read file: '' @ ''Permission denied''\<rparr>]
           @ concat (map (\<lambda>p. validate_file p (sample_fs p)) [''src/C.cs''])
   \<and> map issue_file (printed (main_loop sample_fs [''src/A.cs'', ''src/Bad.cs'', ''src/C.cs''] totals0))
       = [''src/A.cs'', ''src/Bad.cs'', ''src/C.cs'']"
proof -
  have h: "sample_fs ''src/Bad.cs'' = Inl ''Permission denied''"
    by (simp add: sample_fs_def)
  have e: "map issue_file (printed (main_loop sample_fs [''src/A.cs'', ''src/Bad.cs'', ''src/C.cs''] totals0))
       = [''src/A.cs'', ''src/Bad.cs'', ''src/C.cs'']"
    by code_simp
  note t = read_failure_one_issue [of "''src/Bad.cs''" "''Permission denied''" sample_fs
      "[''src/A.cs'']" "[''src/C.cs'']"]
  show ?thesis
    using t h e by blast
qed

section \<open>Blank lines\<close>

lemma star_rems_subset: "x \<in> set (star_rems p s) \<Longrightarrow> set x \<subseteq> set s"
  by (induction s) (auto split: if_splits)

lemma vis_blank:
  assumes "\<forall>c\<in>set r. is_space c"
  shows "rem False vis r = []"
proof (cases r)
  case Nil
  then show ?thesis by (simp add: vis_def)
next
  case (Cons c cs)
  then have "is_space c" using assms by simp
  then have "c \<noteq> CHR ''p'' \<and> c \<noteq> CHR ''i''"
    by (auto simp: is_space_def)
  then show ?thesis using Cons by (simp add: vis_def)
qed

lemma member_pattern_blank:
  assumes "\<forall>c\<in>set l. is_space c"
  shows "rem False (Seq (Star Space) (Seq vis R)) l = []"
proof -
  have "rem False vis r = []" if "r \<in> set (star_rems (cmatch False Space) l)" for r
    using that star_rems_subset [of r "cmatch False Space" l] assms vis_blank [of r] by blast
  then show ?thesis by simp
qed

lemma blank_not_member:
  assumes "\<forall>c\<in>set l. is_space c"
  shows "\<not> is_member_decl l"
  by (simp add: is_member_decl_def MEMBER_PATTERNS_def re_search_bol_def
      member_pattern_blank [OF assms] del: rem.simps)

lemma blank_not_doc:
  assumes "\<forall>c\<in>set l. is_space c"
  shows "\<not> is_doc_line l"
proof -
  have h: "dropWhile is_space l = []" using assms by simp
  have "strip l = []" unfolding strip_def h by simp
  then show ?thesis by (simp add: is_doc_line_def startswith_def)
qed

lemma blanks_skipped:
  "\<forall>l\<in>set ls. \<forall>c\<in>set l. is_space c \<Longrightarrow> run_lines i ls init_state = init_state"
proof (induction ls arbitrary: i)
  case Nil
  show ?case by simp
next
  case (Cons l ls)
  have "\<forall>c\<in>set l. is_space c" using Cons.prems by simp
  then have "step i l init_state = init_state"
    using blank_not_doc [of l] by (simp add: step_def other_step_def init_state_def)
  then show ?case using Cons by simp
qed

section \<open>Lines of the open block and of later blocks\<close>

lemma run_docs_lines:
  assumes "run \<noteq> []" and "\<forall>l\<in>set run. is_doc_line l"
    and "current_block (run_lines i run st) = Some b"
  shows "start_line b = (case current_block st of None \<Rightarrow> i | Some c \<Rightarrow> start_line c)
       \<and> end_line b = i + int (length run) - 1"
  using assms
proof (induction run arbitrary: i st)
  case Nil
  then show ?case by simp
next
  case (Cons l run)
  have d: "step i l st = doc_step i l st"
    using Cons.prems(2) by (simp add: step_def)
  show ?case
  proof (cases "run = []")
    case True
    then show ?thesis using Cons.prems(3) doc_step_start [of i l st b] by (simp add: d)
  next
    case False
    obtain b1 where b1: "current_block (doc_step i l st) = Some b1"
      using current_doc_step by blast
    have r: "\<forall>l\<in>set run. is_doc_line l" using Cons.prems(2) by simp
    have c: "current_block (run_lines (i + 1) run (doc_step i l st)) = Some b"
      using Cons.prems(3) by (simp add: d)
    from Cons.IH [OF False r c] b1 doc_step_start [OF b1]
    show ?thesis by simp
  qed
qed

lemma member_bound_step:
  assumes "j \<le> i" and "\<forall>b\<in>set (blocks st). j \<le> member_line b"
  shows "\<forall>b\<in>set (blocks (step i l st)). j \<le> member_line b"
proof (cases "is_doc_line l")
  case True
  then show ?thesis using assms(2) by (simp add: step_def blocks_doc_step)
next
  case False
  show ?thesis
  proof (cases "current_block st")
    case None
    then show ?thesis using False assms(2) by (simp add: step_def other_step_def)
  next
    case (Some d)
    then show ?thesis using False assms
      by (cases "is_member_decl l") (auto simp: step_def other_step_def)
  qed
qed

lemma member_bound_run_lines:
  assumes "j \<le> i" and "\<forall>b\<in>set (blocks st). j \<le> member_line b"
  shows "\<forall>b\<in>set (blocks (run_lines i ls st)). j \<le> member_line b"
  using assms
proof (induction ls arbitrary: i st)
  case Nil
  then show ?case by simp
next
  case (Cons l ls)
  have le: "j \<le> i + 1" using Cons.prems(1) by simp
  have "\<forall>b\<in>set (blocks (run_lines (i + 1) ls (step i l st))). j \<le> member_line b"
    by (rule Cons.IH [OF le member_bound_step [OF Cons.prems]])
  then show ?case by (simp only: run_lines.simps)
qed

lemma member_bound_init:
  assumes "b \<in> set (blocks (run_lines i ls init_state))"
  shows "i \<le> member_line b"
proof -
  have "\<forall>b\<in>set (blocks (run_lines i ls init_state)). i \<le> member_line b"
    by (rule member_bound_run_lines) (simp_all add: init_state_def)
  with assms show ?thesis by blast
qed

lemma extract_lines_bounds:
  assumes "b \<in> set (extract_lines ls)"
  shows "start_line b \<le> end_line b \<and> end_line b < member_line b
       \<and> member_line b \<le> int (length ls)"
proof -
  have "ordered_upto (1 + int (length ls)) (run_lines 1 ls init_state)"
    by (rule extract_lines_ordered)
  then have "start_line b \<le> end_line b \<and> end_line b < member_line b
       \<and> member_line b < 1 + int (length ls)"
    using assms unfolding ordered_upto_def extract_lines_def by blast
  then show ?thesis by simp
qed

lemma validate_blocks_lines:
  assumes "d \<in> set (validate_blocks fp bs acc)"
  shows "d \<in> set acc \<or> (\<exists>b\<in>set bs. issue_line d = start_line b)"
  using assms
proof (induction bs arbitrary: acc)
  case Nil
  then show ?case by simp
next
  case (Cons b bs)
  let ?new = "(if \<not> has_summary b then [missing_summary fp b]
      else if \<not> has_example b \<or> \<not> has_code_csharp b then [missing_example fp b]
      else map (placeholder_warning fp b) (check_for_placeholders (code_content b)))"
  have "validate_blocks fp (b # bs) acc = validate_blocks fp bs (acc @ ?new)"
    by simp
  then have "d \<in> set (acc @ ?new) \<or> (\<exists>b\<in>set bs. issue_line d = start_line b)"
    using Cons.IH [of "acc @ ?new"] Cons.prems by simp
  moreover have "issue_line d = start_line b" if "d \<in> set ?new"
    using that
    by (auto simp: missing_summary_def missing_example_def placeholder_warning_def
        split: if_splits)
  ultimately show ?case by auto
qed

section \<open>Claims about blank lines and declaration lines\<close>

text \<open>
  C7. A blank line closes and discards the open run of comment lines. When one or more
  blank lines stand between a run and the line after them (a qualifying declaration, or
  any other line), no returned block covers a line of the run, no block is attached to
  that next line, and no issue is reported at a line of the run.
\<close>

theorem blank_line_discards_run:
  assumes "split_nl content = pre @ run @ blanks @ x # post"
    and "run \<noteq> []" and "\<forall>l\<in>set run. is_doc_line l"
    and "blanks \<noteq> []" and "\<forall>l\<in>set blanks. \<forall>c\<in>set l. is_space c"
  shows "(\<forall>b\<in>set (extract_xml_doc_blocks content).
            (end_line b \<le> int (length pre) \<or> int (length pre) + int (length run) < start_line b)
            \<and> member_line b \<noteq> int (length pre) + int (length run) + int (length blanks) + 1)
       \<and> (\<forall>d\<in>set (validate_file fp (Inr content)).
            issue_line d \<le> int (length pre) \<or> int (length pre) + int (length run) < issue_line d)"
proof -
  obtain bl bls where blanks: "blanks = bl # bls"
    using assms(4) by (cases blanks) auto
  have bl: "\<not> is_doc_line bl" "\<not> is_member_decl bl"
    using assms(5) blanks blank_not_doc [of bl] blank_not_member [of bl] by auto
  have bls: "\<forall>l\<in>set bls. \<forall>c\<in>set l. is_space c"
    using assms(5) blanks by simp
  let ?j = "1 + int (length pre) + int (length run) + 1"
  let ?k = "?j + int (length bls)"
  let ?A = "extract_lines pre"
  let ?B = "blocks (run_lines ?j (bls @ x # post) init_state)"
  have "blocks (run_lines (1 + int (length pre)) (run @ bl # (bls @ x # post))
                  (run_lines 1 pre init_state))
      = blocks (run_lines 1 pre init_state) @ ?B"
    using run_discarded [OF assms(3) bl, of "1 + int (length pre)" "bls @ x # post"
        "run_lines 1 pre init_state"]
    by simp
  then have ex: "extract_xml_doc_blocks content = ?A @ ?B"
    using assms(1) blanks
    by (simp add: extract_xml_doc_blocks_def extract_lines_def run_lines_append)
  have B: "?B = blocks (run_lines (?k + 1) post (step ?k x init_state))"
    using blanks_skipped [OF bls, of ?j] by (simp add: run_lines_append)
  have sx: "blocks (step ?k x init_state) = []"
    by (simp add: step_def blocks_doc_step other_step_def init_state_def)
  have inA: "end_line b \<le> int (length pre) \<and> member_line b \<le> int (length pre)
      \<and> start_line b \<le> end_line b" if "b \<in> set ?A" for b
    using extract_lines_bounds [OF that] by simp
  have inB: "int (length pre) + int (length run) < start_line b \<and> ?k < member_line b"
    if "b \<in> set ?B" for b
  proof -
    have "?j \<le> start_line b" using that by (rule start_bound_init)
    moreover have e: "\<forall>b\<in>set (blocks (step ?k x init_state)). ?k + 1 \<le> member_line b"
      unfolding sx by simp
    have "\<forall>b\<in>set (blocks (run_lines (?k + 1) post (step ?k x init_state))).
        ?k + 1 \<le> member_line b"
      by (rule member_bound_run_lines [OF order_refl e])
    then have "?k + 1 \<le> member_line b" using that B by simp
    ultimately show ?thesis by simp
  qed
  have len: "int (length blanks) = int (length bls) + 1"
    using blanks by simp
  have blocks_ok: "(end_line b \<le> int (length pre) \<or> int (length pre) + int (length run) < start_line b)
            \<and> member_line b \<noteq> int (length pre) + int (length run) + int (length blanks) + 1"
    if "b \<in> set (extract_xml_doc_blocks content)" for b
  proof -
    from that ex have "b \<in> set ?A \<or> b \<in> set ?B" by simp
    then show ?thesis
    proof
      assume "b \<in> set ?A"
      from inA [OF this] show ?thesis using len by simp
    next
      assume "b \<in> set ?B"
      from inB [OF this] show ?thesis using len by simp
    qed
  qed
  have issues_ok: "issue_line d \<le> int (length pre) \<or> int (length pre) + int (length run) < issue_line d"
    if "d \<in> set (validate_file fp (Inr content))" for d
  proof -
    from that have "d \<in> set (validate_blocks fp (extract_xml_doc_blocks content) [])"
      by (simp add: validate_file_def)
    then obtain b where b: "b \<in> set (extract_xml_doc_blocks content)" "issue_line d = start_line b"
      using validate_blocks_lines [of d fp "extract_xml_doc_blocks content" "[]"] by auto
    from b(1) ex have "b \<in> set ?A \<or> b \<in> set ?B" by simp
    then show ?thesis
    proof
      assume "b \<in> set ?A"
      from inA [OF this] show ?thesis using b(2) by simp
    next
      assume "b \<in> set ?B"
      from inB [OF this] show ?thesis using b(2) by simp
    qed
  qed
  show ?thesis using blocks_ok issues_ok by blast
qed

theorem blank_line_discards_run_witness:
  "split_nl sample_blank_gap
     = [] @ [''/// <summary>a</summary>''] @ ['''', ''   ''] @ ''public void Foo()''
         # [''/// b'', ''public void Bar()'']
   \<and> list_all is_doc_line [''/// <summary>a</summary>'']
   \<and> list_all (list_all is_space) ['''', ''   '']
   \<and> is_member_decl ''public void Foo()''
   \<and> length (extract_xml_doc_blocks sample_blank_gap) = 1
   \<and> list_all (\<lambda>b. (end_line b \<le> 0 \<or> 1 < start_line b) \<and> member_line b \<noteq> 4)
        (extract_xml_doc_blocks sample_blank_gap)
   \<and> list_all (\<lambda>d. issue_line d \<le> 0 \<or> 1 < issue_line d)
        (validate_file ''src/A.cs'' (Inr sample_blank_gap))"
proof -
  have h1: "split_nl sample_blank_gap
     = [] @ [''/// <summary>a</summary>''] @ ['''', ''   ''] @ ''public void Foo()''
         # [''/// b'', ''public void Bar()'']"
    by code_simp
  have h2: "[''/// <summary>a</summary>''] \<noteq> []" by simp
  have h3: "\<forall>l\<in>set [''/// <summary>a</summary>'']. is_doc_line l" by code_simp
  have h4: "['''', ''   ''] \<noteq> ([] :: string list)" by simp
  have h5: "\<forall>l\<in>set ['''', ''   '']. \<forall>c\<in>set l. is_space c" by code_simp
  have h6: "is_member_decl ''public void Foo()''" by code_simp
  have h7: "length (extract_xml_doc_blocks sample_blank_gap) = 1" by code_simp
  note t = blank_line_discards_run [OF h1 h2 h3 h4 h5, of "''src/A.cs''"]
  show ?thesis
    using t h1 h3 h5 h6 h7 by (simp add: list_all_iff)
qed

section \<open>The text captured from a comment line\<close>

lemma star_rems_hd: "\<exists>ys. star_rems p s = dropWhile p s # ys"
  by (induction s) auto

lemma re_match_group_first:
  assumes "rem False pre s = r1 # t1" and "rem False grp r1 = r2 # t2"
    and "rem False post r2 = r3 # t3"
  shows "re_match_group pre grp post s = Some (take (length r1 - length r2) r1)"
  by (simp add: re_match_group_def assms)

lemma doc_line_slashes:
  assumes "is_doc_line l"
  shows "dropWhile is_space l = ''///'' @ drop 3 (dropWhile is_space l)"
proof -
  let ?x = "dropWhile is_space l"
  have "rev (rev ?x) = rev (takeWhile is_space (rev ?x) @ dropWhile is_space (rev ?x))"
    by (simp only: takeWhile_dropWhile_id)
  then have "?x = rev (dropWhile is_space (rev ?x)) @ rev (takeWhile is_space (rev ?x))"
    by (simp only: rev_rev_ident rev_append)
  then have x: "?x = strip l @ rev (takeWhile is_space (rev ?x))"
    by (simp only: strip_def)
  have "take (length ''///'') (strip l) = ''///''"
    using assms unfolding is_doc_line_def startswith_def .
  moreover have "length ''///'' = 3" by simp
  ultimately have t: "take 3 (strip l) = ''///''" by (simp only:)
  then have "3 \<le> length (strip l)"
    by (metis length_take min.cobounded1 length_Cons list.size(3) One_nat_def
        numeral_3_eq_3 Suc_eq_plus1 min_def nat_le_linear)
  then have "take 3 ?x = take 3 (strip l)"
    using x by (metis take_append diff_is_0_eq take_0 append_Nil2)
  then have "take 3 ?x = ''///''" using t by simp
  then show ?thesis
    by (metis append_take_drop_id)
qed

lemma content_match_doc:
  assumes "is_doc_line l" and "nl \<notin> set l"
  shows "content_match l = Some (doc_text l)"
proof -
  let ?y = "drop 3 (dropWhile is_space l)"
  let ?g = "dropWhile is_space ?y"
  obtain t0 where t0: "star_rems (cmatch False Space) l = dropWhile (cmatch False Space) l # t0"
    using star_rems_hd by blast
  have sp: "cmatch False Space = is_space" by (rule ext) simp
  have x: "dropWhile is_space l = ''///'' @ ?y"
    using doc_line_slashes [OF assms(1)] .
  have "lit_rems False ''///'' (''///'' @ ?y) = [?y]" by simp
  then have lit: "lit_rems False ''///'' (dropWhile is_space l) = [?y]"
    by (subst x) simp
  obtain t1 where t1: "star_rems (cmatch False Space) ?y = ?g # t1"
    using star_rems_hd [of "cmatch False Space" ?y] by (auto simp: sp)
  have "\<exists>t. rem False (seqs [Star Space, Lit ''///'', Star Space]) l = ?g # t"
    using t0 lit t1 by (simp add: sp)
  then obtain t where pre: "rem False (seqs [Star Space, Lit ''///'', Star Space]) l = ?g # t"
    by blast
  have "set ?g \<subseteq> set l"
    by (meson set_dropWhileD set_drop_subset subsetD subsetI)
  then have "\<forall>c\<in>set ?g. cmatch False AnyC c"
    using assms(2) by auto
  then have "dropWhile (cmatch False AnyC) ?g = []" by simp
  then obtain t2 where grp: "rem False (Star AnyC) ?g = [] # t2"
    using star_rems_hd [of "cmatch False AnyC" ?g] by auto
  have post: "rem False Eol [] = [] # []" by simp
  show ?thesis
    using re_match_group_first [OF pre grp post]
    by (simp add: content_match_def doc_text_def)
qed

lemma cons_line_nonempty: "cons_line c ls \<noteq> []"
  by (cases ls) simp_all

lemma split_nl_nonempty: "split_nl s \<noteq> []"
  by (induction s) (simp_all add: cons_line_nonempty)

lemma split_nl_no_nl: "l \<in> set (split_nl s) \<Longrightarrow> nl \<notin> set l"
proof (induction s arbitrary: l)
  case Nil
  then show ?case by simp
next
  case (Cons c cs)
  show ?case
  proof (cases "c = nl")
    case True
    then show ?thesis using Cons by auto
  next
    case False
    obtain x xs where sp: "split_nl cs = x # xs"
      using split_nl_nonempty [of cs] by (cases "split_nl cs") auto
    then have "l = c # x \<or> l \<in> set xs"
      using Cons.prems False by simp
    then show ?thesis
      using Cons.IH [of x] Cons.IH [of l] sp False by auto
  qed
qed

section \<open>The code text over a run of comment lines\<close>

lemma doc_step_code:
  assumes "is_doc_line l" and "nl \<notin> set l"
  shows "in_code (doc_step i l st) = (\<not> closes_code l \<and> (opens_code l \<or> in_code st))"
    and "code_buf (doc_step i l st) =
           (if opens_code l then (if closes_code l then [] else [doc_text l])
            else if \<not> closes_code l \<and> in_code st then code_buf st @ [doc_text l]
            else code_buf st)"
    and "cur_content (doc_step i l st) =
           (if closes_code l then join_nl (if opens_code l then [] else code_buf st)
            else cur_content st)"
    and "cur_tagged (doc_step i l st) = (opens_code l \<or> cur_tagged st)"
  using content_match_doc [OF assms]
  by (simp_all add: doc_step_def Let_def opens_code_def closes_code_def cur_content_def
      cur_tagged_def new_block_def split: option.splits)

lemma run_plain:
  assumes "\<forall>l\<in>set ls. is_doc_line l" and "\<forall>l\<in>set ls. nl \<notin> set l"
    and "\<forall>l\<in>set ls. \<not> opens_code l" and "\<forall>l\<in>set ls. \<not> closes_code l"
  shows "in_code (run_lines i ls st) = in_code st
       \<and> code_buf (run_lines i ls st)
           = (if in_code st then code_buf st @ map doc_text ls else code_buf st)
       \<and> cur_content (run_lines i ls st) = cur_content st"
  using assms
proof (induction ls arbitrary: i st)
  case Nil
  show ?case by simp
next
  case (Cons l ls)
  have l: "is_doc_line l" "nl \<notin> set l" "\<not> opens_code l" "\<not> closes_code l"
    using Cons.prems by simp_all
  have d: "step i l st = doc_step i l st"
    using l(1) by (simp add: step_def)
  note c = doc_step_code [OF l(1,2), of i st]
  have ih: "in_code (run_lines (i + 1) ls (doc_step i l st)) = in_code (doc_step i l st)
       \<and> code_buf (run_lines (i + 1) ls (doc_step i l st))
           = (if in_code (doc_step i l st) then code_buf (doc_step i l st) @ map doc_text ls
              else code_buf (doc_step i l st))
       \<and> cur_content (run_lines (i + 1) ls (doc_step i l st)) = cur_content (doc_step i l st)"
    using Cons.prems by (intro Cons.IH) simp_all
  show ?case
    using ih c l(3,4) by (simp add: d)
qed

lemma run_no_open:
  assumes "\<forall>l\<in>set ls. is_doc_line l" and "\<forall>l\<in>set ls. nl \<notin> set l"
    and "\<forall>l\<in>set ls. \<not> opens_code l"
    and "\<not> in_code st" and "cur_content st = join_nl (code_buf st)"
  shows "cur_content (run_lines i ls st) = cur_content st"
  using assms
proof (induction ls arbitrary: i st)
  case Nil
  show ?case by simp
next
  case (Cons l ls)
  have l: "is_doc_line l" "nl \<notin> set l" "\<not> opens_code l"
    using Cons.prems by simp_all
  have d: "step i l st = doc_step i l st"
    using l(1) by (simp add: step_def)
  note c = doc_step_code [OF l(1,2), of i st]
  have s: "\<not> in_code (doc_step i l st)"
    "code_buf (doc_step i l st) = code_buf st"
    "cur_content (doc_step i l st) = cur_content st"
    using c l(3) Cons.prems(4,5) by simp_all
  have "cur_content (run_lines (i + 1) ls (doc_step i l st)) = cur_content (doc_step i l st)"
    using Cons.prems(1,2,3) s Cons.prems(5) by (intro Cons.IH) simp_all
  then show ?case by (simp add: d s)
qed

lemma run_no_close:
  assumes "\<forall>l\<in>set ls. is_doc_line l" and "\<forall>l\<in>set ls. nl \<notin> set l"
    and "\<forall>l\<in>set ls. \<not> closes_code l"
  shows "cur_content (run_lines i ls st) = cur_content st
       \<and> cur_tagged (run_lines i ls st) = (cur_tagged st \<or> (\<exists>l\<in>set ls. opens_code l))"
  using assms
proof (induction ls arbitrary: i st)
  case Nil
  show ?case by simp
next
  case (Cons l ls)
  have l: "is_doc_line l" "nl \<notin> set l" "\<not> closes_code l"
    using Cons.prems by simp_all
  have d: "step i l st = doc_step i l st"
    using l(1) by (simp add: step_def)
  note c = doc_step_code [OF l(1,2), of i st]
  have ih: "cur_content (run_lines (i + 1) ls (doc_step i l st)) = cur_content (doc_step i l st)
       \<and> cur_tagged (run_lines (i + 1) ls (doc_step i l st))
           = (cur_tagged (doc_step i l st) \<or> (\<exists>l\<in>set ls. opens_code l))"
    using Cons.prems by (intro Cons.IH) simp_all
  show ?case
    using ih c(3,4) l(3) by (auto simp: d)
qed

text \<open>The code text of the open block after a run that holds a code block, opened on
  the line \<open>op\<close> and closed on the line \<open>cl\<close>, when no later line of the run both
  follows an open marker and holds a close marker.\<close>

lemma run_code_content:
  assumes docs: "\<forall>l\<in>set (r1 @ op # between @ cl # r2 @ r3). is_doc_line l"
    and nonl: "\<forall>l\<in>set (r1 @ op # between @ cl # r2 @ r3). nl \<notin> set l"
    and op: "opens_code op" "\<not> closes_code op"
    and between: "\<forall>l\<in>set between. \<not> opens_code l" "\<forall>l\<in>set between. \<not> closes_code l"
    and cl: "closes_code cl" "\<not> opens_code cl"
    and r2: "\<forall>l\<in>set r2. \<not> opens_code l"
    and r3: "\<forall>l\<in>set r3. \<not> closes_code l"
  shows "cur_content (run_lines i (r1 @ op # between @ cl # r2 @ r3) st)
           = join_nl (map doc_text (op # between))"
proof -
  let ?i1 = "i + int (length r1)"
  let ?s1 = "run_lines i r1 st"
  let ?s2 = "doc_step ?i1 op ?s1"
  let ?i3 = "?i1 + 1"
  let ?s3 = "run_lines ?i3 between ?s2"
  let ?i4 = "?i3 + int (length between)"
  let ?s4 = "doc_step ?i4 cl ?s3"
  let ?i5 = "?i4 + 1"
  let ?s5 = "run_lines ?i5 r2 ?s4"
  let ?i6 = "?i5 + int (length r2)"
  have dop: "is_doc_line op" "nl \<notin> set op" using docs nonl by simp_all
  have dcl: "is_doc_line cl" "nl \<notin> set cl" using docs nonl by simp_all
  have whole: "run_lines i (r1 @ op # between @ cl # r2 @ r3) st = run_lines ?i6 r3 ?s5"
    using dop(1) dcl(1) by (simp add: run_lines_append step_def)
  note c2 = doc_step_code [OF dop, of ?i1 ?s1]
  have s2: "in_code ?s2" "code_buf ?s2 = [doc_text op]"
    using c2 op by simp_all
  have p3: "in_code ?s3 = in_code ?s2
       \<and> code_buf ?s3 = (if in_code ?s2 then code_buf ?s2 @ map doc_text between else code_buf ?s2)
       \<and> cur_content ?s3 = cur_content ?s2"
    using docs nonl between by (intro run_plain) simp_all
  have s3: "in_code ?s3" "code_buf ?s3 = doc_text op # map doc_text between"
    using p3 s2 by simp_all
  note c4 = doc_step_code [OF dcl, of ?i4 ?s3]
  have s4: "\<not> in_code ?s4" "code_buf ?s4 = doc_text op # map doc_text between"
    "cur_content ?s4 = join_nl (doc_text op # map doc_text between)"
    using c4 cl s3 by simp_all
  have s5: "cur_content ?s5 = cur_content ?s4"
    using docs nonl r2 s4 by (intro run_no_open) simp_all
  have s6: "cur_content (run_lines ?i6 r3 ?s5) = cur_content ?s5"
    using docs nonl r3 run_no_close [of r3 ?i6 ?s5] by simp
  show ?thesis
    using whole s6 s5 s4(3) by simp
qed

text \<open>The open block after a run that holds no close marker.\<close>

lemma run_never_closed:
  assumes "\<forall>l\<in>set run. is_doc_line l" and "\<forall>l\<in>set run. nl \<notin> set l"
    and "\<forall>l\<in>set run. \<not> closes_code l" and "\<exists>l\<in>set run. opens_code l"
    and "current_block (run_lines i run init_state) = Some b"
  shows "code_content b = [] \<and> has_code_csharp b"
proof -
  have "cur_content (run_lines i run init_state) = cur_content init_state
       \<and> cur_tagged (run_lines i run init_state)
           = (cur_tagged init_state \<or> (\<exists>l\<in>set run. opens_code l))"
    using assms(1,2,3) by (rule run_no_close)
  then show ?thesis
    using assms(4,5) by (simp add: cur_content_def cur_tagged_def init_state_def)
qed

section \<open>Claims about the captured code text\<close>

lemma finalized_block:
  assumes "ls = pre @ run @ x # post"
    and "pre = [] \<or> \<not> is_doc_line (last pre)"
    and "run \<noteq> []" and "\<forall>l\<in>set run. is_doc_line l"
    and "\<not> is_doc_line x" and "is_member_decl x"
  shows "\<exists>b. current_block (run_lines (1 + int (length pre)) run init_state) = Some b
       \<and> extract_lines ls
           = extract_lines pre
               @ b\<lparr>member_line := 1 + int (length pre) + int (length run)\<rparr>
               # blocks (run_lines (1 + int (length pre) + int (length run) + 1) post init_state)
       \<and> start_line b = 1 + int (length pre)
       \<and> end_line b = int (length pre) + int (length run)"
proof -
  let ?i = "1 + int (length pre)"
  obtain b where b: "current_block (run_lines ?i run init_state) = Some b"
    and bs: "blocks (run_lines ?i (run @ x # post) init_state)
      = b\<lparr>member_line := ?i + int (length run)\<rparr>
          # blocks (run_lines (?i + int (length run) + 1) post init_state)"
    using run_finalized [OF assms(3,4,5,6), of ?i post] by blast
  have l: "start_line b = ?i \<and> end_line b = ?i + int (length run) - 1"
    using run_docs_lines [OF assms(3,4) b] by (simp add: init_state_def)
  have "extract_lines ls = extract_lines pre @ blocks (run_lines ?i (run @ x # post) init_state)"
    using extract_lines_append [OF assms(2), of "run @ x # post"] assms(1) by simp
  then show ?thesis using b bs l by simp
qed

lemma no_placeholder_in_empty: "check_for_placeholders [] = []"
  by (simp add: check_for_placeholders_def PLACEHOLDER_PATTERNS_def re_search_i_def)

section \<open>Literals that a match needs\<close>

lemma star_rems_suffix: "r \<in> set (star_rems p s) \<Longrightarrow> \<exists>u. s = u @ r"
proof (induction s)
  case Nil
  then show ?case by simp
next
  case (Cons c cs)
  show ?case
  proof (cases "r = c # cs")
    case True
    then show ?thesis by simp
  next
    case False
    then have "r \<in> set (star_rems p cs)"
      using Cons.prems by (simp split: if_splits)
    then obtain u where "cs = u @ r" using Cons.IH by blast
    then have "c # cs = (c # u) @ r" by simp
    then show ?thesis by blast
  qed
qed

lemma lit_rems_prefix: "r \<in> set (lit_rems False l s) \<Longrightarrow> s = l @ r"
proof (induction l arbitrary: s)
  case Nil
  then show ?case by simp
next
  case (Cons x xs)
  show ?case
  proof (cases s)
    case Nil
    then show ?thesis using Cons.prems by simp
  next
    case (Cons c cs)
    then have "c = x \<and> r \<in> set (lit_rems False xs cs)"
      using Cons.prems by (simp split: if_splits)
    then show ?thesis using Cons.IH [of cs] Cons by simp
  qed
qed

lemma lit_rems_suffix: "r \<in> set (lit_rems ic l s) \<Longrightarrow> \<exists>u. s = u @ r"
proof (induction l arbitrary: s)
  case Nil
  then show ?case by simp
next
  case (Cons x xs)
  show ?case
  proof (cases s)
    case Nil
    then show ?thesis using Cons.prems by simp
  next
    case (Cons c cs)
    then have "r \<in> set (lit_rems ic xs cs)"
      using Cons.prems by (simp split: if_splits)
    then obtain u where "cs = u @ r" using Cons.IH by blast
    then have "s = (c # u) @ r" using Cons by simp
    then show ?thesis by blast
  qed
qed

lemma rem_suffix: "r \<in> set (rem ic p s) \<Longrightarrow> \<exists>u. s = u @ r"
proof (induction p arbitrary: r s)
  case (Sym k)
  then show ?case by (cases s) (auto split: if_splits)
next
  case (Lit l)
  then show ?case using lit_rems_suffix by simp
next
  case (Star k)
  then show ?case using star_rems_suffix by simp
next
  case (Plus k)
  show ?case
  proof (cases s)
    case Nil
    then show ?thesis using Plus by simp
  next
    case (Cons c cs)
    then have "r \<in> set (star_rems (cmatch ic k) cs)"
      using Plus by (simp split: if_splits)
    then obtain u where "cs = u @ r" using star_rems_suffix by blast
    then have "s = (c # u) @ r" using Cons by simp
    then show ?thesis by blast
  qed
next
  case (Opt p)
  then show ?case by auto
next
  case (Alt a b)
  then show ?case by auto
next
  case (Seq a b)
  from Seq.prems obtain m where m: "m \<in> set (rem ic a s)" "r \<in> set (rem ic b m)"
    by auto
  obtain u where u: "s = u @ m" using Seq.IH(1) [OF m(1)] by blast
  obtain v where v: "m = v @ r" using Seq.IH(2) [OF m(2)] by blast
  have "s = (u @ v) @ r" using u v by simp
  then show ?case by blast
next
  case Eol
  then show ?case by (auto split: if_splits)
qed

lemma requires_token_found:
  "requires_token p ts \<Longrightarrow> r \<in> set (rem False p s) \<Longrightarrow> \<exists>t\<in>set ts. \<exists>u v. s = u @ t @ v"
proof (induction p arbitrary: r s)
  case (Lit l)
  then have "s = [] @ l @ r" using lit_rems_prefix by simp
  moreover have "l \<in> set ts" using Lit.prems(1) by simp
  ultimately show ?case by blast
next
  case (Alt a b)
  then show ?case by auto
next
  case (Seq a b)
  from Seq.prems(2) obtain m where m: "m \<in> set (rem False a s)" "r \<in> set (rem False b m)"
    by auto
  show ?case
  proof (cases "requires_token a ts")
    case True
    then show ?thesis using Seq.IH(1) [OF _ m(1)] by blast
  next
    case False
    then have "requires_token b ts" using Seq.prems(1) by simp
    then obtain t u v where t: "t \<in> set ts" "m = u @ t @ v"
      using Seq.IH(2) [OF _ m(2)] by blast
    obtain w where "s = w @ m" using rem_suffix [OF m(1)] by blast
    then have "s = (w @ u) @ t @ v" using t(2) by simp
    then show ?thesis using t(1) by blast
  qed
qed simp_all

lemma tails_append: "t \<in> set (tails (u @ t))"
  by (induction u) (simp_all, cases t, simp_all)

lemma contains_middle: "contains t (u @ t @ v)"
proof -
  have "t @ v \<in> set (tails (u @ t @ v))" by (rule tails_append)
  moreover have "startswith (t @ v) t" by (simp add: startswith_def)
  ultimately show ?thesis unfolding contains_def list_ex_iff by blast
qed

lemma member_patterns_tokens: "\<forall>p\<in>set MEMBER_PATTERNS. requires_token p member_tokens"
  by (simp add: MEMBER_PATTERNS_def member_tokens_def)

lemma member_decl_token:
  assumes "is_member_decl l"
  shows "\<exists>t\<in>set member_tokens. contains t l"
proof -
  from assms obtain p where p: "p \<in> set MEMBER_PATTERNS" "rem False p l \<noteq> []"
    unfolding is_member_decl_def re_search_bol_def list_ex_iff by blast
  then obtain r where "r \<in> set (rem False p l)"
    by (cases "rem False p l") auto
  moreover have "requires_token p member_tokens"
    using member_patterns_tokens p(1) by blast
  ultimately obtain t u v where "t \<in> set member_tokens" "l = u @ t @ v"
    using requires_token_found by blast
  then show ?thesis using contains_middle by blast
qed

section \<open>Claim about declaration lines\<close>

text \<open>
  C2, as the code has it. A run of comment lines that starts after a non-comment line (or
  at the start of the text) and is ended by a non-comment line becomes a block exactly
  when that line matches one of the eleven declaration patterns; the block then spans the
  run and is attached to that line. When the line matches none, no block covers the run.
  A line that matches a pattern holds one of the texts \<^verbatim>\<open>(\<close>, \<^verbatim>\<open>{\<close>, \<^verbatim>\<open>class\<close>,
  \<^verbatim>\<open>struct\<close>, \<^verbatim>\<open>interface\<close>, \<^verbatim>\<open>enum\<close>, \<^verbatim>\<open>operator\<close>. So the field line
  \<^verbatim>\<open>public int Count;\<close> matches none, while the property line
  \<^verbatim>\<open>public int Count { get; set; }\<close> matches one, and so does the field line
  \<^verbatim>\<open>public int operatorCount;\<close>.
\<close>

theorem run_finalized_iff_pattern:
  assumes "split_nl content = pre @ run @ x # post"
    and "pre = [] \<or> \<not> is_doc_line (last pre)"
    and "run \<noteq> []" and "\<forall>l\<in>set run. is_doc_line l" and "\<not> is_doc_line x"
  shows "(is_member_decl x \<longrightarrow>
            (\<exists>b\<in>set (extract_xml_doc_blocks content).
               start_line b = int (length pre) + 1
               \<and> end_line b = int (length pre) + int (length run)
               \<and> member_line b = int (length pre) + int (length run) + 1))
       \<and> (\<not> is_member_decl x \<longrightarrow>
            (\<forall>b\<in>set (extract_xml_doc_blocks content).
               end_line b \<le> int (length pre)
               \<or> int (length pre) + int (length run) + 1 < start_line b))
       \<and> (is_member_decl x \<longrightarrow> (\<exists>t\<in>set member_tokens. contains t x))
       \<and> is_member_decl ''public int Count { get; set; }''
       \<and> is_member_decl ''public int operatorCount;''
       \<and> \<not> is_member_decl ''public int Count;''"
proof (intro conjI impI)
  let ?i = "1 + int (length pre)"
  assume m: "is_member_decl x"
  obtain b where b: "current_block (run_lines ?i run init_state) = Some b"
    and bs: "blocks (run_lines ?i (run @ x # post) init_state)
      = b\<lparr>member_line := ?i + int (length run)\<rparr>
          # blocks (run_lines (?i + int (length run) + 1) post init_state)"
    using run_finalized [OF assms(3,4,5) m, of ?i post] by blast
  have l: "start_line b = ?i \<and> end_line b = ?i + int (length run) - 1"
    using run_docs_lines [OF assms(3,4) b] by (simp add: init_state_def)
  have "extract_xml_doc_blocks content
      = extract_lines pre @ blocks (run_lines ?i (run @ x # post) init_state)"
    using extract_lines_append [OF assms(2), of "run @ x # post"] assms(1)
    by (simp add: extract_xml_doc_blocks_def)
  then have "b\<lparr>member_line := ?i + int (length run)\<rparr> \<in> set (extract_xml_doc_blocks content)"
    using bs by simp
  moreover have "start_line (b\<lparr>member_line := ?i + int (length run)\<rparr>) = int (length pre) + 1
      \<and> end_line (b\<lparr>member_line := ?i + int (length run)\<rparr>) = int (length pre) + int (length run)
      \<and> member_line (b\<lparr>member_line := ?i + int (length run)\<rparr>)
          = int (length pre) + int (length run) + 1"
    using l by simp
  ultimately show "\<exists>b\<in>set (extract_xml_doc_blocks content).
               start_line b = int (length pre) + 1
               \<and> end_line b = int (length pre) + int (length run)
               \<and> member_line b = int (length pre) + int (length run) + 1"
    by blast
next
  let ?j = "1 + int (length pre) + int (length run) + 1"
  let ?A = "extract_lines pre"
  let ?B = "blocks (run_lines ?j post init_state)"
  assume m: "\<not> is_member_decl x"
  have "blocks (run_lines (1 + int (length pre)) (run @ x # post) (run_lines 1 pre init_state))
      = blocks (run_lines 1 pre init_state) @ ?B"
    using run_discarded [OF assms(4,5) m, of "1 + int (length pre)" post
        "run_lines 1 pre init_state"]
    by simp
  then have ex: "extract_xml_doc_blocks content = ?A @ ?B"
    using assms(1)
    by (simp add: extract_xml_doc_blocks_def extract_lines_def run_lines_append)
  show "\<forall>b\<in>set (extract_xml_doc_blocks content).
               end_line b \<le> int (length pre)
               \<or> int (length pre) + int (length run) + 1 < start_line b"
  proof
    fix b assume "b \<in> set (extract_xml_doc_blocks content)"
    with ex have "b \<in> set ?A \<or> b \<in> set ?B" by simp
    then show "end_line b \<le> int (length pre)
               \<or> int (length pre) + int (length run) + 1 < start_line b"
    proof
      assume "b \<in> set ?A"
      from extract_lines_bounds [OF this] show ?thesis by simp
    next
      assume "b \<in> set ?B"
      then have "?j \<le> start_line b" by (rule start_bound_init)
      then show ?thesis by simp
    qed
  qed
next
  assume "is_member_decl x"
  then show "\<exists>t\<in>set member_tokens. contains t x"
    by (rule member_decl_token)
next
  show "is_member_decl ''public int Count { get; set; }''"
    by code_simp
next
  show "is_member_decl ''public int operatorCount;''"
    by code_simp
next
  show "\<not> is_member_decl ''public int Count;''"
    by code_simp
qed

theorem run_finalized_iff_pattern_witness:
  "split_nl sample_two_blocks
     = [''/// <summary>a</summary>'', ''public void Foo()'', ''''] @ [''/// b'', ''/// c'']
         @ ''internal class Bar'' # []
   \<and> \<not> is_doc_line (last [''/// <summary>a</summary>'', ''public void Foo()'', ''''])
   \<and> list_all is_doc_line [''/// b'', ''/// c'']
   \<and> \<not> is_doc_line ''internal class Bar'' \<and> is_member_decl ''internal class Bar''
   \<and> (\<exists>b\<in>set (extract_xml_doc_blocks sample_two_blocks).
         start_line b = 4 \<and> end_line b = 5 \<and> member_line b = 6)
   \<and> (\<exists>t\<in>set member_tokens. contains t ''internal class Bar'')
   \<and> split_nl sample_field = [] @ [''/// <summary>Count.</summary>''] @ ''public int Count;'' # []
   \<and> list_all is_doc_line [''/// <summary>Count.</summary>'']
   \<and> \<not> is_doc_line ''public int Count;'' \<and> \<not> is_member_decl ''public int Count;''
   \<and> list_all (\<lambda>b. end_line b \<le> 0 \<or> 2 < start_line b) (extract_xml_doc_blocks sample_field)"
proof -
  have a1: "split_nl sample_two_blocks
     = [''/// <summary>a</summary>'', ''public void Foo()'', ''''] @ [''/// b'', ''/// c'']
         @ ''internal class Bar'' # []"
    by code_simp
  have a2: "[''/// <summary>a</summary>'', ''public void Foo()'', ''''] = []
      \<or> \<not> is_doc_line (last [''/// <summary>a</summary>'', ''public void Foo()'', ''''])"
    by code_simp
  have a3: "[''/// b'', ''/// c''] \<noteq> []" by simp
  have a4: "\<forall>l\<in>set [''/// b'', ''/// c'']. is_doc_line l" by code_simp
  have a5: "\<not> is_doc_line ''internal class Bar''" by code_simp
  have a6: "is_member_decl ''internal class Bar''" by code_simp
  have b1: "split_nl sample_field
      = [] @ [''/// <summary>Count.</summary>''] @ ''public int Count;'' # []"
    by code_simp
  have b2: "([] :: string list) = [] \<or> \<not> is_doc_line (last [])" by simp
  have b3: "[''/// <summary>Count.</summary>''] \<noteq> []" by simp
  have b4: "\<forall>l\<in>set [''/// <summary>Count.</summary>'']. is_doc_line l" by code_simp
  have b5: "\<not> is_doc_line ''public int Count;''" by code_simp
  have b6: "\<not> is_member_decl ''public int Count;''" by code_simp
  note ta = run_finalized_iff_pattern [OF a1 a2 a3 a4 a5]
  note tb = run_finalized_iff_pattern [OF b1 b2 b3 b4 b5]
  have ra: "\<exists>b\<in>set (extract_xml_doc_blocks sample_two_blocks).
         start_line b = 4 \<and> end_line b = 5 \<and> member_line b = 6"
    using ta a6 by simp
  have rt: "\<exists>t\<in>set member_tokens. contains t ''internal class Bar''"
    using ta a6 by simp
  have rb: "list_all (\<lambda>b. end_line b \<le> 0 \<or> 2 < start_line b) (extract_xml_doc_blocks sample_field)"
    using tb b6 by (simp add: list_all_iff)
  have a2': "\<not> is_doc_line (last [''/// <summary>a</summary>'', ''public void Foo()'', ''''])"
    using a2 by simp
  have a4': "list_all is_doc_line [''/// b'', ''/// c'']" using a4 by simp
  have b4': "list_all is_doc_line [''/// <summary>Count.</summary>'']" using b4 by simp
  show ?thesis
    by (intro conjI a1 a2' a4' a5 a6 ra rt b1 b4' b5 b6 rb)
qed

text \<open>
  The claim C2 as stated fails: the comment line before the field \<^verbatim>\<open>public int Count;\<close>
  is a run of comment lines, the field line is not a comment line, and no block is
  returned.
\<close>

theorem field_not_finalized_counterexample:
  "split_nl sample_field = [''/// <summary>Count.</summary>'', ''public int Count;'']
   \<and> is_doc_line ''/// <summary>Count.</summary>''
   \<and> \<not> is_doc_line ''public int Count;''
   \<and> extract_xml_doc_blocks sample_field = []"
  by code_simp

section \<open>Code blocks in a run\<close>

lemma no_closed_block_split:
  "no_closed_block rest \<Longrightarrow>
     \<exists>r2 r3. rest = r2 @ r3 \<and> (\<forall>l\<in>set r2. \<not> opens_code l) \<and> (\<forall>l\<in>set r3. \<not> closes_code l)"
proof (induction rest)
  case Nil
  then show ?case by simp
next
  case (Cons l ls)
  show ?case
  proof (cases "opens_code l")
    case True
    then have "\<forall>m\<in>set (l # ls). \<not> closes_code m"
      using Cons.prems by (simp add: list_all_iff)
    then have "l # ls = [] @ (l # ls) \<and> (\<forall>l\<in>set ([] :: string list). \<not> opens_code l)
        \<and> (\<forall>m\<in>set (l # ls). \<not> closes_code m)"
      by simp
    then show ?thesis by blast
  next
    case False
    have "no_closed_block ls" using Cons.prems by simp
    then obtain r2 r3 where r: "ls = r2 @ r3" "\<forall>l\<in>set r2. \<not> opens_code l"
        "\<forall>l\<in>set r3. \<not> closes_code l"
      using Cons.IH by blast
    have "l # ls = (l # r2) @ r3 \<and> (\<forall>m\<in>set (l # r2). \<not> opens_code m)
        \<and> (\<forall>l\<in>set r3. \<not> closes_code l)"
      using r False by simp
    then show ?thesis by blast
  qed
qed

lemma code_block_cases:
  assumes "code_block seg"
  shows "(\<exists>oc. seg = [oc] \<and> opens_code oc \<and> closes_code oc)
       \<or> (\<exists>op between cl. seg = op # between @ [cl] \<and> opens_code op \<and> \<not> closes_code op
            \<and> (\<forall>l\<in>set between. \<not> opens_code l) \<and> (\<forall>l\<in>set between. \<not> closes_code l)
            \<and> closes_code cl \<and> \<not> opens_code cl)"
proof (cases seg)
  case Nil
  then show ?thesis using assms by simp
next
  case (Cons op t)
  show ?thesis
  proof (cases t)
    case Nil
    then show ?thesis using assms Cons by simp
  next
    case (Cons l ls)
    have t: "t = butlast t @ [last t]" using Cons by simp
    have c: "opens_code op \<and> \<not> closes_code op
      \<and> list_all (\<lambda>m. \<not> opens_code m \<and> \<not> closes_code m) (butlast t)
      \<and> closes_code (last t) \<and> \<not> opens_code (last t)"
      using assms \<open>seg = op # t\<close> Cons by simp
    have "seg = op # butlast t @ [last t]" using \<open>seg = op # t\<close> t by simp
    then show ?thesis using c by (auto simp: list_all_iff)
  qed
qed

lemma code_block_open_close:
  assumes "opens_code op" and "\<not> closes_code op"
    and "\<forall>l\<in>set between. \<not> opens_code l" and "\<forall>l\<in>set between. \<not> closes_code l"
    and "closes_code cl" and "\<not> opens_code cl"
  shows "code_block (op # between @ [cl])"
proof (cases "between @ [cl]")
  case Nil
  then show ?thesis by simp
next
  case (Cons l ls)
  have "butlast (l # ls) = between" "last (l # ls) = cl"
    using Cons [symmetric] by simp_all
  then show ?thesis using assms Cons by (simp add: list_all_iff)
qed

lemma no_closed_block_append: "no_closed_block (a @ b) \<Longrightarrow> no_closed_block b"
  by (induction a) simp_all

lemma no_closed_block_before_close:
  "no_closed_block (a @ c # b) \<Longrightarrow> closes_code c \<Longrightarrow> (\<forall>l\<in>set a. \<not> opens_code l) \<and> \<not> opens_code c"
proof (induction a)
  case Nil
  then show ?case by (auto split: if_splits)
next
  case (Cons l a)
  have "\<not> opens_code l"
  proof
    assume "opens_code l"
    then have "list_all (\<lambda>m. \<not> closes_code m) (a @ c # b)"
      using Cons.prems(1) by simp
    then show False using Cons.prems(2) by (simp add: list_all_iff)
  qed
  moreover have "no_closed_block (a @ c # b)" using Cons.prems(1) by simp
  ultimately show ?case using Cons.IH Cons.prems(2) by simp
qed

text \<open>A run in which a line with the open marker is followed, on that line or later, by
  a close marker ends with a code block and lines on which none is opened and closed.\<close>

lemma closed_block_exists:
  "\<not> no_closed_block run \<Longrightarrow>
     \<exists>r1 seg rest. run = r1 @ seg @ rest \<and> code_block seg \<and> no_closed_block rest"
proof (induction run)
  case Nil
  then show ?case by simp
next
  case (Cons l ls)
  show ?case
  proof (cases "no_closed_block ls")
    case False
    then obtain r1 seg rest where r: "ls = r1 @ seg @ rest" "code_block seg" "no_closed_block rest"
      using Cons.IH by blast
    have "l # ls = (l # r1) @ seg @ rest" using r(1) by simp
    then show ?thesis using r(2,3) by blast
  next
    case True
    then have o: "opens_code l" and c: "closes_code l \<or> \<not> list_all (\<lambda>m. \<not> closes_code m) ls"
      using Cons.prems by (auto split: if_splits)
    show ?thesis
    proof (cases "closes_code l")
      case True
      have "l # ls = [] @ [l] @ ls \<and> code_block [l] \<and> no_closed_block ls"
        using o True \<open>no_closed_block ls\<close> by simp
      then show ?thesis by blast
    next
      case False
      then have "\<exists>m\<in>set ls. closes_code m"
        using c by (simp add: list_all_iff)
      then obtain between cl rest where s: "ls = between @ cl # rest" "closes_code cl"
          "\<forall>m\<in>set between. \<not> closes_code m"
        using split_list_first_prop [of ls closes_code] by blast
      have n: "(\<forall>m\<in>set between. \<not> opens_code m) \<and> \<not> opens_code cl"
        using no_closed_block_before_close [of between cl rest] True s(1,2) by simp
      have r: "no_closed_block rest"
        using no_closed_block_append [of "between @ [cl]" rest] True s(1) by simp
      have "code_block (l # between @ [cl])"
        using o False n s(2,3) by (intro code_block_open_close) simp_all
      moreover have "l # ls = [] @ (l # between @ [cl]) @ rest" using s(1) by simp
      ultimately show ?thesis using r by blast
    qed
  qed
qed

section \<open>The code text and the flags of the block of a run\<close>

lemma run_code_content_oneline:
  assumes docs: "\<forall>l\<in>set (r1 @ oc # r2 @ r3). is_doc_line l"
    and nonl: "\<forall>l\<in>set (r1 @ oc # r2 @ r3). nl \<notin> set l"
    and oc: "opens_code oc" "closes_code oc"
    and r2: "\<forall>l\<in>set r2. \<not> opens_code l"
    and r3: "\<forall>l\<in>set r3. \<not> closes_code l"
  shows "cur_content (run_lines i (r1 @ oc # r2 @ r3) st) = []"
proof -
  let ?i1 = "i + int (length r1)"
  let ?s1 = "run_lines i r1 st"
  let ?s2 = "doc_step ?i1 oc ?s1"
  let ?i3 = "?i1 + 1"
  let ?s3 = "run_lines ?i3 r2 ?s2"
  let ?i4 = "?i3 + int (length r2)"
  have d: "is_doc_line oc" "nl \<notin> set oc" using docs nonl by simp_all
  have whole: "run_lines i (r1 @ oc # r2 @ r3) st = run_lines ?i4 r3 ?s3"
    using d(1) by (simp add: run_lines_append step_def)
  note c = doc_step_code [OF d, of ?i1 ?s1]
  have s2: "\<not> in_code ?s2" "code_buf ?s2 = []" "cur_content ?s2 = []"
    using c oc by simp_all
  have s3: "cur_content ?s3 = cur_content ?s2"
    using docs nonl r2 s2 by (intro run_no_open) simp_all
  have s4: "cur_content (run_lines ?i4 r3 ?s3) = cur_content ?s3"
    using docs nonl r3 run_no_close [of r3 ?i4 ?s3] by simp
  show ?thesis using whole s4 s3 s2(3) by simp
qed

text \<open>The code text of the open block after a run that ends with a code block and lines
  on which no code block is opened and closed: the texts of the lines of the code block
  but its last one.\<close>

lemma block_content:
  assumes docs: "\<forall>l\<in>set (r1 @ seg @ rest). is_doc_line l"
    and nonl: "\<forall>l\<in>set (r1 @ seg @ rest). nl \<notin> set l"
    and seg: "code_block seg" and rest: "no_closed_block rest"
  shows "cur_content (run_lines i (r1 @ seg @ rest) st) = join_nl (map doc_text (butlast seg))"
proof -
  obtain r2 r3 where r: "rest = r2 @ r3" "\<forall>l\<in>set r2. \<not> opens_code l"
      "\<forall>l\<in>set r3. \<not> closes_code l"
    using no_closed_block_split [OF rest] by blast
  from code_block_cases [OF seg] show ?thesis
  proof
    assume "\<exists>oc. seg = [oc] \<and> opens_code oc \<and> closes_code oc"
    then obtain oc where oc: "seg = [oc]" "opens_code oc" "closes_code oc" by blast
    have "cur_content (run_lines i (r1 @ oc # r2 @ r3) st) = []"
      using docs nonl oc(2,3) r(2,3) unfolding oc(1) r(1)
      by (intro run_code_content_oneline) simp_all
    then show ?thesis by (simp add: oc(1) r(1))
  next
    assume "\<exists>op between cl. seg = op # between @ [cl] \<and> opens_code op \<and> \<not> closes_code op
            \<and> (\<forall>l\<in>set between. \<not> opens_code l) \<and> (\<forall>l\<in>set between. \<not> closes_code l)
            \<and> closes_code cl \<and> \<not> opens_code cl"
    then obtain op between cl where s: "seg = op # between @ [cl]" "opens_code op"
        "\<not> closes_code op" "\<forall>l\<in>set between. \<not> opens_code l"
        "\<forall>l\<in>set between. \<not> closes_code l" "closes_code cl" "\<not> opens_code cl"
      by blast
    have "cur_content (run_lines i (r1 @ op # between @ cl # r2 @ r3) st)
        = join_nl (map doc_text (op # between))"
      using docs nonl s(2-7) r(2,3) unfolding s(1) r(1)
      by (intro run_code_content) simp_all
    moreover have "butlast seg = op # between" using s(1) by (simp add: butlast_append)
    moreover have "r1 @ seg @ rest = r1 @ op # between @ cl # r2 @ r3"
      using s(1) r(1) by simp
    ultimately show ?thesis by simp
  qed
qed

lemma doc_step_flags:
  "cur_summary (doc_step i l st) = (opens_summary l \<or> cur_summary st)"
  "cur_example (doc_step i l st) = (opens_example l \<or> cur_example st)"
  by (auto simp: doc_step_def Let_def opens_summary_def opens_example_def cur_summary_def
      cur_example_def new_block_def split: option.splits)

lemma run_flags:
  assumes "\<forall>l\<in>set ls. is_doc_line l"
  shows "cur_summary (run_lines i ls st) = (cur_summary st \<or> (\<exists>l\<in>set ls. opens_summary l))
       \<and> cur_example (run_lines i ls st) = (cur_example st \<or> (\<exists>l\<in>set ls. opens_example l))"
  using assms
proof (induction ls arbitrary: i st)
  case Nil
  show ?case by simp
next
  case (Cons l ls)
  have d: "step i l st = doc_step i l st"
    using Cons.prems by (simp add: step_def)
  have "cur_summary (run_lines (i + 1) ls (doc_step i l st))
          = (cur_summary (doc_step i l st) \<or> (\<exists>l\<in>set ls. opens_summary l))
       \<and> cur_example (run_lines (i + 1) ls (doc_step i l st))
          = (cur_example (doc_step i l st) \<or> (\<exists>l\<in>set ls. opens_example l))"
    using Cons.prems by (intro Cons.IH) simp
  then show ?case by (auto simp: d doc_step_flags)
qed

section \<open>Claims about the code text of a block\<close>

text \<open>
  C3, as the code has it. Take a run of comment lines before a declaration in which a line
  with the open marker is followed, on that line or a later one, by a close marker. The
  run then ends with a code block (one line holding both markers, or an open marker line
  without close marker, lines without markers and a close marker line without open
  marker) and lines on which no code block is opened and closed. The code text of the
  block is made of the texts of the lines of that code block but its last one, joined by
  newlines: the open marker line's own text comes first, the close marker line is left
  out, and a code block on one line gives the empty text. The text of a comment line is
  what follows its leading whitespace, its three slashes and all the whitespace after
  them.
\<close>

theorem code_body_captured:
  assumes "split_nl content = pre @ run @ x # post"
    and "pre = [] \<or> \<not> is_doc_line (last pre)"
    and "\<forall>l\<in>set run. is_doc_line l"
    and "\<not> is_doc_line x" and "is_member_decl x"
    and "\<not> no_closed_block run"
  shows "(\<exists>r1 seg rest. run = r1 @ seg @ rest \<and> code_block seg \<and> no_closed_block rest)
       \<and> (\<forall>r1 seg rest. run = r1 @ seg @ rest \<and> code_block seg \<and> no_closed_block rest \<longrightarrow>
            (\<exists>b\<in>set (extract_xml_doc_blocks content).
               start_line b = int (length pre) + 1
               \<and> code_content b = join_nl (map doc_text (butlast seg))))
       \<and> (\<forall>l\<in>set run. content_match l = Some (doc_text l))"
proof (intro conjI allI impI ballI)
  show "\<exists>r1 seg rest. run = r1 @ seg @ rest \<and> code_block seg \<and> no_closed_block rest"
    using assms(6) by (rule closed_block_exists)
next
  have nonl: "\<forall>l\<in>set run. nl \<notin> set l"
  proof
    fix l assume "l \<in> set run"
    then have "l \<in> set (split_nl content)" unfolding assms(1) by auto
    then show "nl \<notin> set l" by (rule split_nl_no_nl)
  qed
  have ne: "run \<noteq> []" using assms(6) by auto
  let ?i = "1 + int (length pre)"
  obtain b where b: "current_block (run_lines ?i run init_state) = Some b"
    and ex: "extract_lines (split_nl content)
           = extract_lines pre
               @ b\<lparr>member_line := 1 + int (length pre) + int (length run)\<rparr>
               # blocks (run_lines (1 + int (length pre) + int (length run) + 1) post init_state)"
    and st: "start_line b = 1 + int (length pre)"
    using finalized_block [OF assms(1,2) ne assms(3,4,5)] by blast
  let ?b = "b\<lparr>member_line := 1 + int (length pre) + int (length run)\<rparr>"
  have m: "?b \<in> set (extract_xml_doc_blocks content)"
    unfolding extract_xml_doc_blocks_def ex by simp
  fix r1 seg rest
  assume d: "run = r1 @ seg @ rest \<and> code_block seg \<and> no_closed_block rest"
  have "cur_content (run_lines ?i (r1 @ seg @ rest) init_state)
      = join_nl (map doc_text (butlast seg))"
    using assms(3) nonl d by (intro block_content) simp_all
  then have cc: "code_content b = join_nl (map doc_text (butlast seg))"
    using b d by (simp add: cur_content_def)
  have p: "start_line ?b = int (length pre) + 1
      \<and> code_content ?b = join_nl (map doc_text (butlast seg))"
    using st cc by simp
  show "\<exists>b\<in>set (extract_xml_doc_blocks content).
               start_line b = int (length pre) + 1
               \<and> code_content b = join_nl (map doc_text (butlast seg))"
    by (rule bexI [where x = ?b], rule p, rule m)
next
  fix l assume l: "l \<in> set run"
  then have "l \<in> set (split_nl content)" unfolding assms(1) by auto
  then have "nl \<notin> set l" by (rule split_nl_no_nl)
  moreover have "is_doc_line l" using assms(3) l by blast
  ultimately show "content_match l = Some (doc_text l)"
    using content_match_doc by blast
qed


text \<open>
  C10. When a run of comment lines before a declaration holds the tagged open marker and
  no close marker, the block has the tagged-code flag and an empty code text; it has the
  summary flag exactly when a line of the run holds the summary marker, and the example
  flag exactly when one holds the example marker. So with both markers in the run the block
  gives no issue at all, and in any case it never gives a placeholder warning: every issue
  it gives is an error.
\<close>

theorem unclosed_code_block_empty:
  assumes "split_nl content = pre @ run @ x # post"
    and "pre = [] \<or> \<not> is_doc_line (last pre)"
    and "\<forall>l\<in>set run. is_doc_line l"
    and "\<not> is_doc_line x" and "is_member_decl x"
    and "\<exists>l\<in>set run. opens_code l" and "\<forall>l\<in>set run. \<not> closes_code l"
  shows "\<exists>b\<in>set (extract_xml_doc_blocks content).
            start_line b = int (length pre) + 1
            \<and> has_code_csharp b \<and> code_content b = []
            \<and> has_summary b = (\<exists>l\<in>set run. opens_summary l)
            \<and> has_example b = (\<exists>l\<in>set run. opens_example l)
            \<and> ((\<exists>l\<in>set run. opens_summary l) \<and> (\<exists>l\<in>set run. opens_example l)
                 \<longrightarrow> validate_blocks fp [b] [] = [])
            \<and> (has_summary b \<and> has_example b \<longrightarrow> validate_blocks fp [b] [] = [])
            \<and> (\<forall>d\<in>set (validate_blocks fp [b] []). issue_type d = ''error'')"
proof -
  let ?i = "1 + int (length pre)"
  have nonl: "\<forall>l\<in>set run. nl \<notin> set l"
  proof
    fix l assume "l \<in> set run"
    then have "l \<in> set (split_nl content)" unfolding assms(1) by auto
    then show "nl \<notin> set l" by (rule split_nl_no_nl)
  qed
  have ne: "run \<noteq> []" using assms(6) by auto
  obtain b where b: "current_block (run_lines ?i run init_state) = Some b"
    and ex: "extract_lines (split_nl content)
           = extract_lines pre
               @ b\<lparr>member_line := 1 + int (length pre) + int (length run)\<rparr>
               # blocks (run_lines (1 + int (length pre) + int (length run) + 1) post init_state)"
    and st: "start_line b = 1 + int (length pre)"
    using finalized_block [OF assms(1,2) ne assms(3,4,5)] by blast
  have c: "code_content b = [] \<and> has_code_csharp b"
    using assms(3) nonl assms(7,6) b by (rule run_never_closed)
  have "cur_summary (run_lines ?i run init_state)
          = (cur_summary init_state \<or> (\<exists>l\<in>set run. opens_summary l))
       \<and> cur_example (run_lines ?i run init_state)
          = (cur_example init_state \<or> (\<exists>l\<in>set run. opens_example l))"
    using assms(3) by (rule run_flags)
  then have f: "has_summary b = (\<exists>l\<in>set run. opens_summary l)"
      "has_example b = (\<exists>l\<in>set run. opens_example l)"
    using b by (simp_all add: cur_summary_def cur_example_def init_state_def)
  let ?b = "b\<lparr>member_line := 1 + int (length pre) + int (length run)\<rparr>"
  have m: "?b \<in> set (extract_xml_doc_blocks content)"
    unfolding extract_xml_doc_blocks_def ex by simp
  have p1: "start_line ?b = int (length pre) + 1" using st by simp
  have p2: "has_code_csharp ?b" using c by simp
  have p3: "code_content ?b = []" using c by simp
  have p4: "has_summary ?b = (\<exists>l\<in>set run. opens_summary l)" using f(1) by simp
  have p5: "has_example ?b = (\<exists>l\<in>set run. opens_example l)" using f(2) by simp
  have p7: "has_summary ?b \<and> has_example ?b \<longrightarrow> validate_blocks fp [?b] [] = []"
    using c by (simp add: no_placeholder_in_empty)
  have p6: "(\<exists>l\<in>set run. opens_summary l) \<and> (\<exists>l\<in>set run. opens_example l)
                 \<longrightarrow> validate_blocks fp [?b] [] = []"
    using p7 p4 p5 by blast
  have p8: "\<forall>d\<in>set (validate_blocks fp [?b] []). issue_type d = ''error''"
    using c by (simp add: no_placeholder_in_empty missing_summary_def missing_example_def)
  show ?thesis
    by (rule bexI [where x = ?b], intro conjI, rule p1, rule p2, rule p3, rule p4, rule p5,
        rule p6, rule p7, rule p8, rule m)
qed

theorem code_body_captured_witness:
  \<open>split_nl sample_code
     = [] @ [''/// <summary>s</summary>'', ''/// <example>'', ''/// <code lang="csharp">'',
             ''///     var x = 1;'', ''/// </code>'', ''/// </example>'']
         @ ''public void Foo()'' # []
   \<and> list_all is_doc_line [''/// <summary>s</summary>'', ''/// <example>'',
        ''/// <code lang="csharp">'', ''///     var x = 1;'', ''/// </code>'', ''/// </example>'']
   \<and> is_member_decl ''public void Foo()''
   \<and> \<not> no_closed_block [''/// <summary>s</summary>'', ''/// <example>'',
        ''/// <code lang="csharp">'', ''///     var x = 1;'', ''/// </code>'', ''/// </example>'']
   \<and> [''/// <summary>s</summary>'', ''/// <example>'', ''/// <code lang="csharp">'',
       ''///     var x = 1;'', ''/// </code>'', ''/// </example>'']
       = [''/// <summary>s</summary>'', ''/// <example>'']
           @ [''/// <code lang="csharp">'', ''///     var x = 1;'', ''/// </code>'']
           @ [''/// </example>'']
   \<and> code_block [''/// <code lang="csharp">'', ''///     var x = 1;'', ''/// </code>'']
   \<and> no_closed_block [''/// </example>'']
   \<and> (\<exists>b\<in>set (extract_xml_doc_blocks sample_code).
         start_line b = int (length ([] :: string list)) + 1
         \<and> code_content b
             = join_nl (map doc_text
                 (butlast [''/// <code lang="csharp">'', ''///     var x = 1;'', ''/// </code>''])))
   \<and> join_nl (map doc_text
         (butlast [''/// <code lang="csharp">'', ''///     var x = 1;'', ''/// </code>'']))
       = ''<code lang="csharp">\<newline>var x = 1;''
   \<and> split_nl sample_oneline
     = [] @ [''/// <code lang="csharp">x</code>'', ''/// y'', ''/// </code>'']
         @ ''public void Foo()'' # []
   \<and> [''/// <code lang="csharp">x</code>'', ''/// y'', ''/// </code>'']
       = [] @ [''/// <code lang="csharp">x</code>''] @ [''/// y'', ''/// </code>'']
   \<and> code_block [''/// <code lang="csharp">x</code>'']
   \<and> no_closed_block [''/// y'', ''/// </code>'']
   \<and> (\<exists>b\<in>set (extract_xml_doc_blocks sample_oneline).
         start_line b = int (length ([] :: string list)) + 1
         \<and> code_content b
             = join_nl (map doc_text (butlast [''/// <code lang="csharp">x</code>''])))
   \<and> join_nl (map doc_text (butlast [''/// <code lang="csharp">x</code>''])) = []\<close>
proof -
  have a1: \<open>split_nl sample_code
     = [] @ [''/// <summary>s</summary>'', ''/// <example>'', ''/// <code lang="csharp">'',
             ''///     var x = 1;'', ''/// </code>'', ''/// </example>'']
         @ ''public void Foo()'' # []\<close>
    by code_simp
  have e0: "([] :: string list) = [] \<or> \<not> is_doc_line (last [])" by simp
  have a3: \<open>\<forall>l\<in>set [''/// <summary>s</summary>'', ''/// <example>'',
        ''/// <code lang="csharp">'', ''///     var x = 1;'', ''/// </code>'', ''/// </example>''].
        is_doc_line l\<close>
    by code_simp
  have x4: "\<not> is_doc_line ''public void Foo()''" by code_simp
  have x5: "is_member_decl ''public void Foo()''" by code_simp
  have a6: \<open>\<not> no_closed_block [''/// <summary>s</summary>'', ''/// <example>'',
        ''/// <code lang="csharp">'', ''///     var x = 1;'', ''/// </code>'', ''/// </example>'']\<close>
    by code_simp
  have a7: \<open>[''/// <summary>s</summary>'', ''/// <example>'', ''/// <code lang="csharp">'',
       ''///     var x = 1;'', ''/// </code>'', ''/// </example>'']
       = [''/// <summary>s</summary>'', ''/// <example>'']
           @ [''/// <code lang="csharp">'', ''///     var x = 1;'', ''/// </code>'']
           @ [''/// </example>'']\<close>
    by simp
  have a8: \<open>code_block [''/// <code lang="csharp">'', ''///     var x = 1;'', ''/// </code>'']\<close>
    by code_simp
  have a9: "no_closed_block [''/// </example>'']" by code_simp
  have a10: \<open>join_nl (map doc_text
         (butlast [''/// <code lang="csharp">'', ''///     var x = 1;'', ''/// </code>'']))
       = ''<code lang="csharp">\<newline>var x = 1;''\<close>
    by code_simp
  note ta = code_body_captured [OF a1 e0 a3 x4 x5 a6]
  note ra = mp [OF spec [OF spec [OF spec [OF conjunct1 [OF conjunct2 [OF ta]]]]]
                  conjI [OF a7 conjI [OF a8 a9]]]
  have a3': \<open>list_all is_doc_line [''/// <summary>s</summary>'', ''/// <example>'',
        ''/// <code lang="csharp">'', ''///     var x = 1;'', ''/// </code>'', ''/// </example>'']\<close>
    using a3 unfolding list_all_iff .
  have b1: \<open>split_nl sample_oneline
     = [] @ [''/// <code lang="csharp">x</code>'', ''/// y'', ''/// </code>'']
         @ ''public void Foo()'' # []\<close>
    by code_simp
  have b3: \<open>\<forall>l\<in>set [''/// <code lang="csharp">x</code>'', ''/// y'', ''/// </code>'']. is_doc_line l\<close>
    by code_simp
  have b6: \<open>\<not> no_closed_block [''/// <code lang="csharp">x</code>'', ''/// y'', ''/// </code>'']\<close>
    by code_simp
  have b7: \<open>[''/// <code lang="csharp">x</code>'', ''/// y'', ''/// </code>'']
       = [] @ [''/// <code lang="csharp">x</code>''] @ [''/// y'', ''/// </code>'']\<close>
    by simp
  have b8: \<open>code_block [''/// <code lang="csharp">x</code>'']\<close> by code_simp
  have b9: "no_closed_block [''/// y'', ''/// </code>'']" by code_simp
  have b10: \<open>join_nl (map doc_text (butlast [''/// <code lang="csharp">x</code>''])) = []\<close>
    by simp
  note tb = code_body_captured [OF b1 e0 b3 x4 x5 b6]
  note rb = mp [OF spec [OF spec [OF spec [OF conjunct1 [OF conjunct2 [OF tb]]]]]
                  conjI [OF b7 conjI [OF b8 b9]]]
  show ?thesis
    by (intro conjI a1 a3' x5 a6 a7 a8 a9 ra a10 b1 b7 b8 b9 rb b10)
qed

text \<open>
  The claim C3 as stated fails on a run with one code block: the code text starts with the
  text of the open marker line, and the five blanks after the three slashes of the line
  between the markers are all removed, where the claim gives that line with four of them.
\<close>

theorem code_body_captured_counterexample:
  \<open>split_nl sample_code
     = [''/// <summary>s</summary>'', ''/// <example>'', ''/// <code lang="csharp">'',
        ''///     var x = 1;'', ''/// </code>'', ''/// </example>'', ''public void Foo()'']
   \<and> map code_content (extract_xml_doc_blocks sample_code)
       = [''<code lang="csharp">\<newline>var x = 1;'']
   \<and> ''<code lang="csharp">\<newline>var x = 1;'' \<noteq> ''    var x = 1;''\<close>
  by code_simp


theorem unclosed_code_block_empty_witness:
  \<open>split_nl sample_unclosed
     = [] @ [''/// <summary>s</summary>'', ''/// <example>'', ''/// <code lang="csharp">'',
             ''/// TODO placeholder'']
         @ ''public void Foo()'' # []
   \<and> list_ex opens_code [''/// <summary>s</summary>'', ''/// <example>'',
        ''/// <code lang="csharp">'', ''/// TODO placeholder'']
   \<and> list_all (\<lambda>l. \<not> closes_code l) [''/// <summary>s</summary>'', ''/// <example>'',
        ''/// <code lang="csharp">'', ''/// TODO placeholder'']
   \<and> list_ex opens_summary [''/// <summary>s</summary>'', ''/// <example>'',
        ''/// <code lang="csharp">'', ''/// TODO placeholder'']
   \<and> list_ex opens_example [''/// <summary>s</summary>'', ''/// <example>'',
        ''/// <code lang="csharp">'', ''/// TODO placeholder'']
   \<and> is_member_decl ''public void Foo()''
   \<and> (\<exists>b\<in>set (extract_xml_doc_blocks sample_unclosed).
         start_line b = int (length ([] :: string list)) + 1
         \<and> has_code_csharp b \<and> code_content b = []
         \<and> has_summary b
           = (\<exists>l\<in>set [''/// <summary>s</summary>'', ''/// <example>'',
                      ''/// <code lang="csharp">'', ''/// TODO placeholder'']. opens_summary l)
         \<and> has_example b
           = (\<exists>l\<in>set [''/// <summary>s</summary>'', ''/// <example>'',
                      ''/// <code lang="csharp">'', ''/// TODO placeholder'']. opens_example l)
         \<and> ((\<exists>l\<in>set [''/// <summary>s</summary>'', ''/// <example>'',
                      ''/// <code lang="csharp">'', ''/// TODO placeholder'']. opens_summary l)
              \<and> (\<exists>l\<in>set [''/// <summary>s</summary>'', ''/// <example>'',
                      ''/// <code lang="csharp">'', ''/// TODO placeholder'']. opens_example l)
              \<longrightarrow> validate_blocks ''src/A.cs'' [b] [] = [])
         \<and> (has_summary b \<and> has_example b \<longrightarrow> validate_blocks ''src/A.cs'' [b] [] = [])
         \<and> (\<forall>d\<in>set (validate_blocks ''src/A.cs'' [b] []). issue_type d = ''error''))
   \<and> map has_summary (extract_xml_doc_blocks sample_unclosed) = [True]
   \<and> map has_example (extract_xml_doc_blocks sample_unclosed) = [True]
   \<and> validate_file ''src/A.cs'' (Inr sample_unclosed) = []\<close>
proof -
  have h1: \<open>split_nl sample_unclosed
     = [] @ [''/// <summary>s</summary>'', ''/// <example>'', ''/// <code lang="csharp">'',
             ''/// TODO placeholder'']
         @ ''public void Foo()'' # []\<close>
    by code_simp
  have h2: "([] :: string list) = [] \<or> \<not> is_doc_line (last [])" by simp
  have h3: \<open>\<forall>l\<in>set [''/// <summary>s</summary>'', ''/// <example>'', ''/// <code lang="csharp">'',
             ''/// TODO placeholder'']. is_doc_line l\<close>
    by code_simp
  have h4: "\<not> is_doc_line ''public void Foo()''" by code_simp
  have h5: "is_member_decl ''public void Foo()''" by code_simp
  have h6: \<open>\<exists>l\<in>set [''/// <summary>s</summary>'', ''/// <example>'', ''/// <code lang="csharp">'',
             ''/// TODO placeholder'']. opens_code l\<close>
    by code_simp
  have h7: \<open>\<forall>l\<in>set [''/// <summary>s</summary>'', ''/// <example>'', ''/// <code lang="csharp">'',
             ''/// TODO placeholder'']. \<not> closes_code l\<close>
    by code_simp
  note t = unclosed_code_block_empty [OF h1 h2 h3 h4 h5 h6 h7, of "''src/A.cs''"]
  have e1: "map has_summary (extract_xml_doc_blocks sample_unclosed) = [True]" by code_simp
  have e2: "map has_example (extract_xml_doc_blocks sample_unclosed) = [True]" by code_simp
  have e3: "validate_file ''src/A.cs'' (Inr sample_unclosed) = []" by code_simp
  have l6: \<open>list_ex opens_code [''/// <summary>s</summary>'', ''/// <example>'',
        ''/// <code lang="csharp">'', ''/// TODO placeholder'']\<close>
    using h6 unfolding list_ex_iff .
  have l7: \<open>list_all (\<lambda>l. \<not> closes_code l) [''/// <summary>s</summary>'', ''/// <example>'',
        ''/// <code lang="csharp">'', ''/// TODO placeholder'']\<close>
    using h7 unfolding list_all_iff .
  have l8: \<open>list_ex opens_summary [''/// <summary>s</summary>'', ''/// <example>'',
        ''/// <code lang="csharp">'', ''/// TODO placeholder'']\<close>
    by code_simp
  have l9: \<open>list_ex opens_example [''/// <summary>s</summary>'', ''/// <example>'',
        ''/// <code lang="csharp">'', ''/// TODO placeholder'']\<close>
    by code_simp
  show ?thesis
    by (intro conjI h1 l6 l7 l8 l9 h5 t e1 e2 e3)
qed

end
